theory Spec2Isabelle
  imports Main
begin

section \<open>The data model of sat_api.h\<close>

text \<open>
  The library is pointer code over four structs (\<^verbatim>\<open>Var\<close>, \<^verbatim>\<open>Lit\<close>, \<^verbatim>\<open>Clause\<close>,
  \<^verbatim>\<open>SatState\<close>). The embedding keeps one heap component per struct field: a function
  from references to the field's value, so that writing one field of one object changes
  nothing else.

  References. A \<^verbatim>\<open>Var*\<close> is either \<^verbatim>\<open>&sat_state->contradiction\<close> or
  \<^verbatim>\<open>sat_state->vars.item + i\<close>. A \<^verbatim>\<open>Lit*\<close> is \<^verbatim>\<open>(var->lit) + b\<close> for a variable and a
  slot \<open>b\<close> (\<^verbatim>\<open>pos = true\<close>, \<^verbatim>\<open>neg = false\<close>). A \<^verbatim>\<open>Clause*\<close> is
  \<^verbatim>\<open>&sat_state->false_clause\<close>, \<^verbatim>\<open>sat_state->clauses.item + i\<close>, or the result of the
  \<open>k\<close>-th \<^verbatim>\<open>malloc(sizeof(Clause))\<close>. A pointer that may be \<^verbatim>\<open>NULL\<close> is an \<open>option\<close>.

  The \<^verbatim>\<open>ARRAY(type)\<close> macro is a record of the written prefix \<open>item[0..count)\<close> and of the
  allocated length \<open>size\<close>; \<open>count\<close> is the length of the prefix. Reading a slot that was
  never written and writing past \<open>size\<close> are errors of the model.

  \<^verbatim>\<open>c2dSize\<close> values (levels, counts, indices) are natural numbers; where the source
  decrements an index that is 0 the model reports the out-of-bounds access that follows.
  The intrusive \<^verbatim>\<open>LIST_HEAD\<close> lists are lists of the clause pointers their nodes carry,
  head first.
\<close>

datatype error = NullDeref | OutOfBounds | UninitRead | SignedOverflow | Diverges

datatype vref = Contradiction | VarAt nat

type_synonym lref = "vref \<times> bool"

datatype cref = FalseClause | ClauseAt nat | Malloc nat

record 'a array =
  item :: "'a list"
  asize :: nat

definition pos :: bool where "pos = True"
definition neg :: bool where "neg = False"

record sat_state =
  level :: nat
  marks :: "bool list"
  vars_size :: nat
  vars_count :: nat
  clauses_size :: nat
  clauses_count :: nat
  decided_literals :: "lref array"
  propagate_literals :: "lref array"
  learned_clauses :: "cref list"
  subsumed_clauses :: "cref option list"
  var_id :: "vref \<Rightarrow> nat"
  var_mark :: "vref \<Rightarrow> bool"
  d_value :: "vref \<Rightarrow> bool"
  d_level :: "vref \<Rightarrow> nat"
  d_order :: "vref \<Rightarrow> nat"
  d_implied_by :: "vref \<Rightarrow> cref option"
  d_dominator :: "vref \<Rightarrow> vref option"
  lit_id :: "lref \<Rightarrow> int"
  lit_var :: "lref \<Rightarrow> vref"
  appears_in :: "lref \<Rightarrow> cref array"
  watch_list :: "lref \<Rightarrow> cref list"
  learned_list :: "lref \<Rightarrow> cref list"
  c_id :: "cref \<Rightarrow> nat"
  assertion_level :: "cref \<Rightarrow> nat"
  lits :: "cref \<Rightarrow> lref array"
  watch_a :: "cref \<Rightarrow> lref option"
  watch_b :: "cref \<Rightarrow> lref option"
  is_subsumed :: "cref \<Rightarrow> bool"
  c_mark :: "cref \<Rightarrow> bool"
  malloc_next :: nat

text \<open>\<^verbatim>\<open>a.item[a.count++] = x\<close>: the write is out of bounds when \<open>count\<close> has reached \<open>size\<close>.\<close>

definition push :: "'a array \<Rightarrow> 'a \<Rightarrow> error + 'a array" where
  "push a x = (if length (item a) < asize a then Inr (a\<lparr>item := item a @ [x]\<rparr>)
               else Inl OutOfBounds)"

text \<open>\<^verbatim>\<open>a.item[i]\<close> as a read.\<close>

definition read_at :: "'a array \<Rightarrow> nat \<Rightarrow> error + 'a" where
  "read_at a i = (if asize a \<le> i then Inl OutOfBounds
                  else if length (item a) \<le> i then Inl UninitRead
                  else Inr (item a ! i))"

section \<open>Variables, literals and subsumption\<close>

definition set_Var_Decision :: "vref \<Rightarrow> nat \<Rightarrow> bool \<Rightarrow> cref option \<Rightarrow> sat_state \<Rightarrow> sat_state" where
  "set_Var_Decision var lv val implier s =
     s\<lparr>d_level := (d_level s)(var := lv),
       d_value := (d_value s)(var := val),
       d_implied_by := (d_implied_by s)(var := implier)\<rparr>"

definition unset_Var_Decision :: "vref \<Rightarrow> sat_state \<Rightarrow> sat_state" where
  "unset_Var_Decision var s = s\<lparr>d_level := (d_level s)(var := 0)\<rparr>"

definition sat_instantiated_var :: "sat_state \<Rightarrow> vref \<Rightarrow> bool" where
  "sat_instantiated_var s var = (d_level s var > 0)"

definition sat_subsumed_clause :: "sat_state \<Rightarrow> cref \<Rightarrow> bool" where
  "sat_subsumed_clause s clause = is_subsumed s clause"

text \<open>\<^verbatim>\<open>lit->id < 0 ^ lit->var->decision.value\<close>: the comparison binds tighter than the
  exclusive or, and \<open>value\<close> is only ever written with 0 or 1.\<close>

definition sat_implied_literal :: "sat_state \<Rightarrow> lref \<Rightarrow> bool" where
  "sat_implied_literal s lit =
     (sat_instantiated_var s (lit_var s lit) \<and> ((lit_id s lit < 0) \<noteq> d_value s (lit_var s lit)))"

text \<open>\<^verbatim>\<open>sat_subsume_clause\<close> on a clause pointer that is not \<^verbatim>\<open>NULL\<close>. The source reads
  \<^verbatim>\<open>clause->is_subsumed\<close> at once, so a caller that may hold \<^verbatim>\<open>NULL\<close> is modelled with the
  null dereference at the call.\<close>

definition sat_subsume_clause :: "cref \<Rightarrow> sat_state \<Rightarrow> sat_state" where
  "sat_subsume_clause clause s =
     (if \<not> is_subsumed s clause
      then s\<lparr>is_subsumed := (is_subsumed s)(clause := True),
             subsumed_clauses := Some clause # subsumed_clauses s\<rparr>
      else s)"

text \<open>Loops that run a pointer from \<^verbatim>\<open>ARRAY_BEGIN\<close> to \<^verbatim>\<open>ARRAY_S_END\<close> visit \<open>size\<close> slots.
  The recursion carries the written prefix that is left and the number of slots that are
  left; a slot beyond the written prefix is an uninitialised read.\<close>

fun irrelevant_scan :: "sat_state \<Rightarrow> cref list \<Rightarrow> nat \<Rightarrow> error + bool" where
  "irrelevant_scan s cs 0 = Inr True"
| "irrelevant_scan s [] (Suc k) = Inl UninitRead"
| "irrelevant_scan s (clause # cs) (Suc k) =
     (if \<not> sat_subsumed_clause s clause then Inr False else irrelevant_scan s cs k)"

definition sat_irrelevant_var :: "sat_state \<Rightarrow> vref \<Rightarrow> error + bool" where
  "sat_irrelevant_var s var =
     (case irrelevant_scan s (item (appears_in s (var, pos))) (asize (appears_in s (var, pos))) of
        Inl e \<Rightarrow> Inl e
      | Inr False \<Rightarrow> Inr False
      | Inr True \<Rightarrow>
          irrelevant_scan s (item (appears_in s (var, neg))) (asize (appears_in s (var, neg))))"

section \<open>Assignment\<close>

definition sat_contradiction :: "cref option \<Rightarrow> sat_state \<Rightarrow> error + (bool \<times> sat_state)" where
  "sat_contradiction implier s =
     (let s1 = set_Var_Decision Contradiction (level s) True implier s in
      case push (decided_literals s1) (Contradiction, pos) of
        Inl e \<Rightarrow> Inl e
      | Inr a \<Rightarrow> Inr (False, s1\<lparr>decided_literals := a\<rparr>))"

definition set_Lit_Decision :: "lref \<Rightarrow> cref option \<Rightarrow> sat_state \<Rightarrow> error + (bool \<times> sat_state)" where
  "set_Lit_Decision lit implier s =
     (if \<not> sat_instantiated_var s (lit_var s lit) then
        (let s1 = set_Var_Decision (lit_var s lit) (level s) (lit_id s lit > 0) implier s in
         case push (decided_literals s1) lit of
           Inl e \<Rightarrow> Inl e
         | Inr a \<Rightarrow> Inr (True, s1\<lparr>decided_literals := a\<rparr>))
      else if \<not> sat_implied_literal s lit then sat_contradiction implier s
      else (case implier of
              None \<Rightarrow> Inl NullDeref
            | Some clause \<Rightarrow> Inr (True, sat_subsume_clause clause s)))"

section \<open>The watch-list propagator\<close>

fun unwatched_scan :: "cref \<Rightarrow> sat_state \<Rightarrow> lref list \<Rightarrow> nat \<Rightarrow> error + (lref option \<times> sat_state)" where
  "unwatched_scan clause s ls 0 = Inr (None, s)"
| "unwatched_scan clause s [] (Suc k) = Inl UninitRead"
| "unwatched_scan clause s (l # ls) (Suc k) =
     (if sat_instantiated_var s (lit_var s l) then
        (if sat_implied_literal s l then Inr (None, sat_subsume_clause clause s)
         else unwatched_scan clause s ls k)
      else if Some l = watch_a s clause \<or> Some l = watch_b s clause then unwatched_scan clause s ls k
      else Inr (Some l, s))"

definition sat_unwatched_literal :: "cref \<Rightarrow> sat_state \<Rightarrow> error + (lref option \<times> sat_state)" where
  "sat_unwatched_literal clause s =
     unwatched_scan clause s (item (lits s clause)) (asize (lits s clause))"

fun subsume_scan :: "sat_state \<Rightarrow> cref list \<Rightarrow> nat \<Rightarrow> error + sat_state" where
  "subsume_scan s cs 0 = Inr s"
| "subsume_scan s [] (Suc k) = Inl UninitRead"
| "subsume_scan s (clause # cs) (Suc k) = subsume_scan (sat_subsume_clause clause s) cs k"

text \<open>One pass of the body of the loop over \<^verbatim>\<open>clit->watch_list\<close> in
  \<^verbatim>\<open>propagate_lit_decision\<close>, at the node with index \<open>k\<close> of the list. \<open>Continue k' s'\<close>: the
  loop goes on at the node that then has index \<open>k'\<close>; \<open>Return b s'\<close>: the function returns
  \<open>b\<close>. When the node moves to the head of another literal's list the next node takes its
  index; were it re-inserted at the head of the same list, the next node would be one
  further.\<close>

datatype visit = Continue nat sat_state | Return bool sat_state

definition LIST_REMOVE :: "nat \<Rightarrow> 'a list \<Rightarrow> 'a list" where
  "LIST_REMOVE k xs = take k xs @ drop (Suc k) xs"

definition watch_visit :: "lref \<Rightarrow> nat \<Rightarrow> sat_state \<Rightarrow> error + visit" where
  "watch_visit clit k s =
     (let clause = watch_list s clit ! k in
      if sat_subsumed_clause s clause then Inr (Continue (Suc k) s)
      else
        case sat_unwatched_literal clause s of
          Inl e \<Rightarrow> Inl e
        | Inr (l, s1) \<Rightarrow>
            if sat_subsumed_clause s1 clause then Inr (Continue (Suc k) s1)
            else
              (case l of
                 Some l \<Rightarrow>
                   (let s2 = (if Some clit = watch_a s1 clause
                              then s1\<lparr>watch_a := (watch_a s1)(clause := Some l)\<rparr>
                              else s1\<lparr>watch_b := (watch_b s1)(clause := Some l)\<rparr>);
                        s3 = s2\<lparr>watch_list := (watch_list s2)(clit := LIST_REMOVE k (watch_list s2 clit))\<rparr>;
                        s4 = s3\<lparr>watch_list := (watch_list s3)(l := clause # watch_list s3 l)\<rparr>
                    in Inr (Continue (if l = clit then Suc k else k) s4))
               | None \<Rightarrow>
                   (let other_lit = (if Some clit = watch_a s1 clause then watch_b s1 clause
                                     else watch_a s1 clause) in
                    case other_lit of
                      None \<Rightarrow>
                        (case sat_contradiction (Some clause) s1 of
                           Inl e \<Rightarrow> Inl e
                         | Inr (b, s2) \<Rightarrow> Inr (Return b s2))
                    | Some ol \<Rightarrow>
                        if sat_instantiated_var s1 (lit_var s1 ol) then
                          (if sat_implied_literal s1 ol
                           then Inr (Continue (Suc k) (sat_subsume_clause clause s1))
                           else (case sat_contradiction (Some clause) s1 of
                                   Inl e \<Rightarrow> Inl e
                                 | Inr (b, s2) \<Rightarrow> Inr (Return b s2)))
                        else
                          (case set_Lit_Decision ol (Some clause) s1 of
                             Inl e \<Rightarrow> Inl e
                           | Inr (False, s2) \<Rightarrow> Inr (Return False s2)
                           | Inr (True, s2) \<Rightarrow>
                               (case push (propagate_literals s2) ol of
                                  Inl e \<Rightarrow> Inl e
                                | Inr q \<Rightarrow> Inr (Continue (Suc k) (s2\<lparr>propagate_literals := q\<rparr>)))))))"

lemma sat_subsume_clause_frame [simp]:
  "watch_list (sat_subsume_clause c s) = watch_list s"
  "propagate_literals (sat_subsume_clause c s) = propagate_literals s"
  "decided_literals (sat_subsume_clause c s) = decided_literals s"
  "level (sat_subsume_clause c s) = level s"
  "lits (sat_subsume_clause c s) = lits s"
  "watch_a (sat_subsume_clause c s) = watch_a s"
  "watch_b (sat_subsume_clause c s) = watch_b s"
  "lit_var (sat_subsume_clause c s) = lit_var s"
  "lit_id (sat_subsume_clause c s) = lit_id s"
  "d_level (sat_subsume_clause c s) = d_level s"
  "d_value (sat_subsume_clause c s) = d_value s"
  "d_implied_by (sat_subsume_clause c s) = d_implied_by s"
  "appears_in (sat_subsume_clause c s) = appears_in s"
  "learned_list (sat_subsume_clause c s) = learned_list s"
  "learned_clauses (sat_subsume_clause c s) = learned_clauses s"
  "marks (sat_subsume_clause c s) = marks s"
  by (simp_all add: sat_subsume_clause_def)

lemma unwatched_scan_frame:
  "unwatched_scan c s ls k = Inr (r, s') \<Longrightarrow> s' = s \<or> s' = sat_subsume_clause c s"
  by (induction c s ls k rule: unwatched_scan.induct) (auto split: if_splits)

lemma sat_unwatched_literal_frame:
  "sat_unwatched_literal c s = Inr (r, s') \<Longrightarrow> s' = s \<or> s' = sat_subsume_clause c s"
  unfolding sat_unwatched_literal_def by (rule unwatched_scan_frame)

lemma sat_contradiction_frame:
  assumes "sat_contradiction imp s = Inr (b, s')"
  shows "watch_list s' = watch_list s" "propagate_literals s' = propagate_literals s" "\<not> b"
  using assms
  by (auto simp: sat_contradiction_def set_Var_Decision_def Let_def split: sum.splits)

lemma set_Lit_Decision_frame:
  assumes "set_Lit_Decision l imp s = Inr (b, s')"
  shows "watch_list s' = watch_list s" "propagate_literals s' = propagate_literals s"
  using assms sat_contradiction_frame[of imp s b s']
  by (auto simp: set_Lit_Decision_def set_Var_Decision_def Let_def
           split: sum.splits if_splits option.splits)

text \<open>The queue only grows, within its allocated length.\<close>

definition queue_grows :: "sat_state \<Rightarrow> sat_state \<Rightarrow> bool" where
  "queue_grows s s' =
     (asize (propagate_literals s') = asize (propagate_literals s) \<and>
      (length (item (propagate_literals s')) = length (item (propagate_literals s)) \<or>
       (length (item (propagate_literals s)) < length (item (propagate_literals s')) \<and>
        length (item (propagate_literals s')) \<le> asize (propagate_literals s))))"

lemma queue_grows_refl [simp]: "queue_grows s s"
  by (simp add: queue_grows_def)

lemma queue_grows_trans: "queue_grows s s1 \<Longrightarrow> queue_grows s1 s2 \<Longrightarrow> queue_grows s s2"
  by (auto simp: queue_grows_def)

lemma queue_grows_eq: "propagate_literals s' = propagate_literals s \<Longrightarrow> queue_grows s s'"
  by (simp add: queue_grows_def)

lemma watch_visit_Continue:
  assumes "watch_visit clit k s = Inr (Continue k' s')" "k < length (watch_list s clit)"
  shows "length (watch_list s' clit) - k' < length (watch_list s clit) - k"
    and "queue_grows s s'"
proof -
  let ?c = "watch_list s clit ! k"
  show "length (watch_list s' clit) - k' < length (watch_list s clit) - k"
    using assms
    by (auto simp: watch_visit_def Let_def LIST_REMOVE_def sat_subsumed_clause_def
             split: if_splits sum.splits prod.splits option.splits bool.splits
             dest!: sat_unwatched_literal_frame set_Lit_Decision_frame(1) sat_contradiction_frame(1))
  show "queue_grows s s'"
    using assms
    by (auto simp: watch_visit_def Let_def sat_subsumed_clause_def push_def queue_grows_def
             split: if_splits sum.splits prod.splits option.splits bool.splits
             dest!: sat_unwatched_literal_frame set_Lit_Decision_frame(2) sat_contradiction_frame(2))
qed

lemma watch_visit_Return:
  assumes "watch_visit clit k s = Inr (Return b s')"
  shows "queue_grows s s'" "\<not> b"
  using assms
  by (auto simp: watch_visit_def Let_def sat_subsumed_clause_def queue_grows_def
           split: if_splits sum.splits prod.splits option.splits bool.splits
           dest!: sat_unwatched_literal_frame set_Lit_Decision_frame(2)
           dest: sat_contradiction_frame(2,3))

function watch_loop :: "lref \<Rightarrow> nat \<Rightarrow> sat_state \<Rightarrow> error + (bool \<times> sat_state)" where
  "watch_loop clit k s =
     (if k < length (watch_list s clit) then
        (case watch_visit clit k s of
           Inl e \<Rightarrow> Inl e
         | Inr (Return b s') \<Rightarrow> Inr (b, s')
         | Inr (Continue k' s') \<Rightarrow> watch_loop clit k' s')
      else Inr (True, s))"
  by pat_completeness auto
termination
  by (relation "measure (\<lambda>(clit, k, s). length (watch_list s clit) - k)")
     (auto dest: watch_visit_Continue(1))

declare watch_loop.simps [simp del]

definition propagate_lit_decision :: "lref \<Rightarrow> sat_state \<Rightarrow> error + (bool \<times> sat_state)" where
  "propagate_lit_decision lit s =
     (let var = lit_var s lit in
      case subsume_scan s (item (appears_in s lit)) (asize (appears_in s lit)) of
        Inl e \<Rightarrow> Inl e
      | Inr s1 \<Rightarrow>
          (let s2 = fold sat_subsume_clause (learned_list s1 lit) s1;
               clit = (var, lit_id s2 lit < 0)
           in watch_loop clit 0 s2))"

lemma subsume_scan_frame:
  "subsume_scan s cs k = Inr s' \<Longrightarrow>
     propagate_literals s' = propagate_literals s \<and> watch_list s' = watch_list s"
  by (induction s cs k rule: subsume_scan.induct) auto

lemma fold_subsume_frame [simp]:
  "propagate_literals (fold sat_subsume_clause cs s) = propagate_literals s"
  "watch_list (fold sat_subsume_clause cs s) = watch_list s"
  by (induction cs arbitrary: s) auto

lemma watch_loop_queue_grows:
  "watch_loop clit k s = Inr (b, s') \<Longrightarrow> queue_grows s s'"
proof (induction clit k s rule: watch_loop.induct)
  case (1 clit k s)
  show ?case
  proof (cases "k < length (watch_list s clit)")
    case False
    with "1.prems" show ?thesis by (simp add: watch_loop.simps)
  next
    case True
    show ?thesis
    proof (cases "watch_visit clit k s")
      case (Inl e)
      with True "1.prems" show ?thesis by (simp add: watch_loop.simps)
    next
      case (Inr v)
      show ?thesis
      proof (cases v)
        case (Return b' s1)
        with Inr True "1.prems" have "s' = s1" by (simp add: watch_loop.simps)
        with Return Inr show ?thesis by (auto dest: watch_visit_Return(1))
      next
        case (Continue k' s1)
        with Inr True "1.prems" have "watch_loop clit k' s1 = Inr (b, s')"
          by (simp add: watch_loop.simps)
        with "1.IH"[OF True Inr Continue] have "queue_grows s1 s'" .
        moreover from Inr Continue True have "queue_grows s s1"
          by (auto dest: watch_visit_Continue(2))
        ultimately show ?thesis by (rule queue_grows_trans[rotated])
      qed
    qed
  qed
qed

lemma propagate_lit_decision_queue_grows:
  "propagate_lit_decision lit s = Inr (b, s') \<Longrightarrow> queue_grows s s'"
  by (auto simp: propagate_lit_decision_def Let_def queue_grows_def split: sum.splits
           dest!: subsume_scan_frame watch_loop_queue_grows)

section \<open>Unit resolution and its undo\<close>

text \<open>The loop of \<^verbatim>\<open>sat_unit_resolution\<close> runs \<open>unit\<close> up to \<^verbatim>\<open>ARRAY_C_END\<close>, which moves
  while the propagation appends to the queue.\<close>

function unit_loop :: "nat \<Rightarrow> sat_state \<Rightarrow> error + (bool \<times> sat_state)" where
  "unit_loop i s =
     (if i < length (item (propagate_literals s)) then
        (case propagate_lit_decision (item (propagate_literals s) ! i) s of
           Inl e \<Rightarrow> Inl e
         | Inr (False, s') \<Rightarrow> Inr (False, s')
         | Inr (True, s') \<Rightarrow> unit_loop (Suc i) s')
      else Inr (True, s\<lparr>propagate_literals := (propagate_literals s)\<lparr>item := []\<rparr>\<rparr>))"
  by pat_completeness auto
termination
  by (relation "measure (\<lambda>(i, s). (asize (propagate_literals s) - length (item (propagate_literals s)))
                                  + (length (item (propagate_literals s)) - i))")
     (auto dest!: propagate_lit_decision_queue_grows simp: queue_grows_def)

declare unit_loop.simps [simp del]

definition sat_unit_resolution :: "sat_state \<Rightarrow> error + (bool \<times> sat_state)" where
  "sat_unit_resolution s = unit_loop 0 s"

function undo_trail :: "sat_state \<Rightarrow> sat_state" where
  "undo_trail s =
     (if item (decided_literals s) \<noteq> [] \<and>
         d_level s (lit_var s (last (item (decided_literals s)))) = level s
      then undo_trail
             (unset_Var_Decision (lit_var s (last (item (decided_literals s))))
                (s\<lparr>decided_literals := (decided_literals s)\<lparr>item := butlast (item (decided_literals s))\<rparr>\<rparr>))
      else s)"
  by pat_completeness auto
termination
  by (relation "measure (\<lambda>s. length (item (decided_literals s)))")
     (auto simp: unset_Var_Decision_def)

declare undo_trail.simps [simp del]

fun undo_subsumed :: "cref option list \<Rightarrow> sat_state \<Rightarrow> sat_state" where
  "undo_subsumed [] s = s\<lparr>subsumed_clauses := []\<rparr>"
| "undo_subsumed (None # rest) s = s\<lparr>subsumed_clauses := rest\<rparr>"
| "undo_subsumed (Some clause # rest) s =
     undo_subsumed rest (s\<lparr>subsumed_clauses := rest, is_subsumed := (is_subsumed s)(clause := False)\<rparr>)"

definition sat_undo_unit_resolution :: "sat_state \<Rightarrow> sat_state" where
  "sat_undo_unit_resolution s =
     (let s1 = undo_trail s;
          s2 = undo_subsumed (subsumed_clauses s1) s1
      in s2\<lparr>propagate_literals := (propagate_literals s2)\<lparr>item := []\<rparr>\<rparr>)"

text \<open>\<^verbatim>\<open>--sat_state->level\<close> on an \<^verbatim>\<open>unsigned long\<close>: at 0 it wraps.\<close>

definition sat_undo_decide_literal :: "sat_state \<Rightarrow> sat_state" where
  "sat_undo_decide_literal s =
     (let s1 = sat_undo_unit_resolution s
      in s1\<lparr>level := (if level s1 = 0 then 2 ^ 64 - 1 else level s1 - 1)\<rparr>)"

definition sat_clause_size :: "sat_state \<Rightarrow> cref \<Rightarrow> nat" where
  "sat_clause_size s clause = length (item (lits s clause))"

definition sat_at_assertion_level :: "sat_state \<Rightarrow> cref \<Rightarrow> bool" where
  "sat_at_assertion_level s clause = (assertion_level s clause = level s)"

text \<open>The subtraction is one of \<^verbatim>\<open>unsigned long\<close>: below 0 it wraps.\<close>

definition sat_learned_clause_count :: "sat_state \<Rightarrow> nat" where
  "sat_learned_clause_count s =
     (case learned_clauses s of
        [] \<Rightarrow> 0
      | c # _ \<Rightarrow> nat ((int (c_id s c) - int (clauses_count s)) mod 2 ^ 64))"

section \<open>Conflict analysis\<close>

text \<open>\<^verbatim>\<open>dominator\<close> is two \<^verbatim>\<open>while\<close> loops inside a third. Nothing in the function bounds
  them, so each is a partial function whose value \<open>None\<close> means that the loop does not
  end; \<open>Some (Inl NullDeref)\<close> is the read of \<^verbatim>\<open>decision.order\<close> through a null pointer.\<close>

partial_function (option) raise_var2 ::
  "sat_state \<Rightarrow> vref option \<Rightarrow> vref option \<Rightarrow> (error + vref option) option" where
  "raise_var2 s var1 var2 =
     (case var1 of
        None \<Rightarrow> Some (Inl NullDeref)
      | Some v1 \<Rightarrow>
          (case var2 of
             None \<Rightarrow> Some (Inl NullDeref)
           | Some v2 \<Rightarrow>
               if d_order s v1 < d_order s v2 then raise_var2 s var1 (d_dominator s v2)
               else Some (Inr var2)))"

partial_function (option) raise_var1 ::
  "sat_state \<Rightarrow> vref option \<Rightarrow> vref option \<Rightarrow> (error + vref option) option" where
  "raise_var1 s var1 var2 =
     (case var2 of
        None \<Rightarrow> Some (Inl NullDeref)
      | Some v2 \<Rightarrow>
          (case var1 of
             None \<Rightarrow> Some (Inl NullDeref)
           | Some v1 \<Rightarrow>
               if d_order s v2 < d_order s v1 then raise_var1 s (d_dominator s v1) var2
               else Some (Inr var1)))"

partial_function (option) dominator_loop ::
  "sat_state \<Rightarrow> vref option \<Rightarrow> vref option \<Rightarrow> (error + vref option) option" where
  "dominator_loop s var1 var2 =
     (if var1 \<noteq> var2 then
        (case raise_var2 s var1 var2 of
           None \<Rightarrow> None
         | Some (Inl e) \<Rightarrow> Some (Inl e)
         | Some (Inr var2') \<Rightarrow>
             (case raise_var1 s var1 var2' of
                None \<Rightarrow> None
              | Some (Inl e) \<Rightarrow> Some (Inl e)
              | Some (Inr var1') \<Rightarrow> dominator_loop s var1' var2'))
      else Some (Inr var1))"

declare raise_var2.simps [code] raise_var1.simps [code] dominator_loop.simps [code]

definition dominator :: "sat_state \<Rightarrow> vref option \<Rightarrow> vref option \<Rightarrow> error + vref option" where
  "dominator s var1 var2 =
     (case dominator_loop s var1 var2 of None \<Rightarrow> Inl Diverges | Some r \<Rightarrow> r)"

text \<open>\<^verbatim>\<open>sat_compute_UIP\<close>, first loop: from the end of the trail down to the last literal
  with \<^verbatim>\<open>implied_by == NULL\<close>.\<close>

function uip_scan_back :: "nat \<Rightarrow> sat_state \<Rightarrow> error + (nat \<times> sat_state)" where
  "uip_scan_back last_decision s =
     (case read_at (decided_literals s) last_decision of
        Inl e \<Rightarrow> Inl e
      | Inr lit \<Rightarrow>
          if d_implied_by s (lit_var s lit) \<noteq> None then
            (let s1 = s\<lparr>d_order := (d_order s)(lit_var s lit := last_decision),
                        d_dominator := (d_dominator s)(lit_var s lit := None)\<rparr>
             in if last_decision = 0 then Inl OutOfBounds
                else uip_scan_back (last_decision - 1) s1)
          else Inr (last_decision, s))"
  by pat_completeness auto
termination
  by (relation "measure (\<lambda>(i, s). i)") auto

declare uip_scan_back.simps [simp del]

text \<open>The inner loop over the literals of \<^verbatim>\<open>(*lit)->var->decision.implied_by\<close>.\<close>

fun uip_preds :: "sat_state \<Rightarrow> lref \<Rightarrow> lref list \<Rightarrow> nat \<Rightarrow> error + sat_state" where
  "uip_preds s lit ps 0 = Inr s"
| "uip_preds s lit [] (Suc k) = Inl UninitRead"
| "uip_preds s lit (pred # ps) (Suc k) =
     (if d_level s (lit_var s pred) \<noteq> level s \<or> pred = lit then uip_preds s lit ps k
      else
        (case d_dominator s (lit_var s lit) of
           None \<Rightarrow>
             uip_preds (s\<lparr>d_dominator := (d_dominator s)(lit_var s lit := Some (lit_var s pred))\<rparr>)
               lit ps k
         | Some d \<Rightarrow>
             (case dominator s (Some (lit_var s pred)) (Some d) of
                Inl e \<Rightarrow> Inl e
              | Inr r \<Rightarrow>
                  uip_preds (s\<lparr>d_dominator := (d_dominator s)(lit_var s lit := r)\<rparr>) lit ps k)))"

fun uip_forward :: "sat_state \<Rightarrow> lref list \<Rightarrow> error + sat_state" where
  "uip_forward s [] = Inr s"
| "uip_forward s (lit # rest) =
     (case d_implied_by s (lit_var s lit) of
        None \<Rightarrow> Inl NullDeref
      | Some c \<Rightarrow>
          (case uip_preds s lit (item (lits s c)) (asize (lits s c)) of
             Inl e \<Rightarrow> Inl e
           | Inr s1 \<Rightarrow> uip_forward s1 rest))"

definition sat_compute_UIP :: "sat_state \<Rightarrow> error + (vref option \<times> sat_state)" where
  "sat_compute_UIP s =
     (if item (decided_literals s) = [] then Inl OutOfBounds
      else
        case uip_scan_back (length (item (decided_literals s)) - 1) s of
          Inl e \<Rightarrow> Inl e
        | Inr (last_decision, s1) \<Rightarrow>
            (let lit = item (decided_literals s1) ! last_decision;
                 s2 = s1\<lparr>d_dominator := (d_dominator s1)(lit_var s1 lit := Some (lit_var s1 lit)),
                         d_order := (d_order s1)(lit_var s1 lit := last_decision)\<rparr>
             in case uip_forward s2 (drop (Suc last_decision) (item (decided_literals s2))) of
                  Inl e \<Rightarrow> Inl e
                | Inr s3 \<Rightarrow> Inr (d_dominator s3 Contradiction, s3)))"

definition init_Clause :: "cref \<Rightarrow> nat \<Rightarrow> nat \<Rightarrow> sat_state \<Rightarrow> sat_state" where
  "init_Clause clause cid lit_count s =
     s\<lparr>c_id := (c_id s)(clause := cid),
       c_mark := (c_mark s)(clause := False),
       is_subsumed := (is_subsumed s)(clause := False),
       watch_a := (watch_a s)(clause := None),
       watch_b := (watch_b s)(clause := None),
       lits := (lits s)(clause := \<lparr>item = [], asize = lit_count\<rparr>)\<rparr>"

text \<open>\<^verbatim>\<open>sat_build_asserting_clause\<close>, the loop over the literals of
  \<^verbatim>\<open>dlit->var->decision.implied_by\<close>; \<open>&&\<close> reads \<^verbatim>\<open>marks\<close> only when the level test holds.\<close>

fun mark_scan :: "sat_state \<Rightarrow> lref list \<Rightarrow> nat \<Rightarrow> nat \<Rightarrow> error + (nat \<times> sat_state)" where
  "mark_scan s ls 0 clause_size = Inr (clause_size, s)"
| "mark_scan s [] (Suc k) clause_size = Inl UninitRead"
| "mark_scan s (lit # ls) (Suc k) clause_size =
     (if d_level s (lit_var s lit) < level s then
        (if var_id s (lit_var s lit) < length (marks s) then
           (if \<not> marks s ! var_id s (lit_var s lit)
            then mark_scan (s\<lparr>marks := (marks s)[var_id s (lit_var s lit) := True]\<rparr>) ls k
                   (Suc clause_size)
            else mark_scan s ls k clause_size)
         else Inl OutOfBounds)
      else mark_scan s ls k clause_size)"

text \<open>The backward sweep from the end of the trail to the UIP.\<close>

function build_back :: "vref option \<Rightarrow> nat \<Rightarrow> nat \<Rightarrow> sat_state \<Rightarrow> error + (nat \<times> sat_state)" where
  "build_back uip post_uip clause_size s =
     (case read_at (decided_literals s) post_uip of
        Inl e \<Rightarrow> Inl e
      | Inr dlit \<Rightarrow>
          if Some (lit_var s dlit) \<noteq> uip then
            (case dominator s uip (d_dominator s (lit_var s dlit)) of
               Inl e \<Rightarrow> Inl e
             | Inr d \<Rightarrow>
                 (case (if d = uip then
                          (case d_implied_by s (lit_var s dlit) of
                             None \<Rightarrow> Inl NullDeref
                           | Some c \<Rightarrow> mark_scan s (item (lits s c)) (asize (lits s c)) clause_size)
                        else Inr (clause_size, s)) of
                    Inl e \<Rightarrow> Inl e
                  | Inr (clause_size', s1) \<Rightarrow>
                      if post_uip = 0 then Inl OutOfBounds
                      else build_back uip (post_uip - 1) clause_size' s1))
          else Inr (clause_size, s))"
  by pat_completeness auto
termination
  by (relation "measure (\<lambda>(uip, i, n, s). i)") auto

declare build_back.simps [simp del]

text \<open>The forward sweep over the trail, from its first entry while the entry's level is
  below the current one. The loop has no other bound; the model stops with an error where
  it would read past the written part of the trail.\<close>

function build_fwd :: "cref \<Rightarrow> nat \<Rightarrow> sat_state \<Rightarrow> error + sat_state" where
  "build_fwd clause i s =
     (case read_at (decided_literals s) i of
        Inl e \<Rightarrow> Inl e
      | Inr lit \<Rightarrow>
          if d_level s (lit_var s lit) < level s then
            (if var_id s (lit_var s lit) < length (marks s) then
               (if marks s ! var_id s (lit_var s lit) then
                  (case push (lits s clause) (lit_var s lit, \<not> d_value s (lit_var s lit)) of
                     Inl e \<Rightarrow> Inl e
                   | Inr a \<Rightarrow>
                       build_fwd clause (Suc i)
                         (s\<lparr>marks := (marks s)[var_id s (lit_var s lit) := False],
                            lits := (lits s)(clause := a),
                            assertion_level := (assertion_level s)
                              (clause := (if d_level s (lit_var s lit) > assertion_level s clause
                                          then d_level s (lit_var s lit)
                                          else assertion_level s clause))\<rparr>))
                else build_fwd clause (Suc i) s)
             else Inl OutOfBounds)
          else Inr s)"
  by pat_completeness auto
termination
  by (relation "measure (\<lambda>(c, i, s). length (item (decided_literals s)) - i)")
     (auto simp: read_at_def split: if_splits)

declare build_fwd.simps [simp del]

text \<open>\<^verbatim>\<open>(uip->lit) + (!(uip->decision.value))\<close>: slot \<^verbatim>\<open>neg\<close> when the value is true.\<close>

definition sat_build_asserting_clause :: "sat_state \<Rightarrow> error + (cref \<times> sat_state)" where
  "sat_build_asserting_clause s0 =
     (let clause = Malloc (malloc_next s0);
          s = s0\<lparr>malloc_next := Suc (malloc_next s0)\<rparr>
      in case sat_compute_UIP s of
           Inl e \<Rightarrow> Inl e
         | Inr (uip, s1) \<Rightarrow>
             if item (decided_literals s1) = [] then Inl OutOfBounds
             else
               (case build_back uip (length (item (decided_literals s1)) - 1) 1 s1 of
                  Inl e \<Rightarrow> Inl e
                | Inr (clause_size, s2) \<Rightarrow>
                    (let s3 = init_Clause clause
                                ((case learned_clauses s2 of
                                    [] \<Rightarrow> clauses_size s2
                                  | c # _ \<Rightarrow> c_id s2 c) + 1)
                                clause_size s2;
                         s4 = s3\<lparr>assertion_level := (assertion_level s3)(clause := 1)\<rparr>
                     in case uip of
                          None \<Rightarrow> Inl NullDeref
                        | Some u \<Rightarrow>
                            (case push (lits s4 clause) (u, \<not> d_value s4 u) of
                               Inl e \<Rightarrow> Inl e
                             | Inr a \<Rightarrow>
                                 (let s5 = s4\<lparr>lits := (lits s4)(clause := a)\<rparr>
                                  in if clause_size > 1 then
                                       (case build_fwd clause 0 s5 of
                                          Inl e \<Rightarrow> Inl e
                                        | Inr s6 \<Rightarrow> Inr (clause, s6))
                                     else Inr (clause, s5))))))"

section \<open>Deciding a literal and asserting a clause\<close>

text \<open>\<^verbatim>\<open>++sat_state->level\<close> on an \<^verbatim>\<open>unsigned long\<close>: at its greatest value it wraps to 0.\<close>

definition sat_decide_literal :: "lref \<Rightarrow> sat_state \<Rightarrow> error + (cref option \<times> sat_state)" where
  "sat_decide_literal lit s =
     (let s1 = s\<lparr>level := nat ((int (level s) + 1) mod 2 ^ 64)\<rparr>;
          s2 = s1\<lparr>subsumed_clauses := None # subsumed_clauses s1\<rparr>
      in case set_Lit_Decision lit None s2 of
           Inl e \<Rightarrow> Inl e
         | Inr (False, s3) \<Rightarrow>
             (case sat_build_asserting_clause s3 of
                Inl e \<Rightarrow> Inl e
              | Inr (c, s4) \<Rightarrow> Inr (Some c, s4))
         | Inr (True, s3) \<Rightarrow>
             (case push (propagate_literals s3) lit of
                Inl e \<Rightarrow> Inl e
              | Inr q \<Rightarrow>
                  (case sat_unit_resolution (s3\<lparr>propagate_literals := q\<rparr>) of
                     Inl e \<Rightarrow> Inl e
                   | Inr (False, s4) \<Rightarrow>
                       (case sat_build_asserting_clause s4 of
                          Inl e \<Rightarrow> Inl e
                        | Inr (c, s5) \<Rightarrow> Inr (Some c, s5))
                   | Inr (True, s4) \<Rightarrow> Inr (None, s4))))"

fun learned_scan :: "cref \<Rightarrow> sat_state \<Rightarrow> lref list \<Rightarrow> nat \<Rightarrow> error + sat_state" where
  "learned_scan clause s ls 0 = Inr s"
| "learned_scan clause s [] (Suc k) = Inl UninitRead"
| "learned_scan clause s (lit # ls) (Suc k) =
     learned_scan clause (s\<lparr>learned_list := (learned_list s)(lit := clause # learned_list s lit)\<rparr>) ls k"

text \<open>\<^verbatim>\<open>clause->lits.item[clause->lits.size-1]\<close>: with \<open>size = 0\<close> the index wraps and the read
  is out of bounds.\<close>

definition assert_attach :: "cref \<Rightarrow> sat_state \<Rightarrow> error + (bool \<times> sat_state)" where
  "assert_attach clause s =
     (let s1 = s\<lparr>learned_clauses := clause # learned_clauses s\<rparr>
      in case learned_scan clause s1 (item (lits s1 clause)) (asize (lits s1 clause)) of
           Inl e \<Rightarrow> Inl e
         | Inr s2 \<Rightarrow>
             (case read_at (lits s2 clause) 0 of
                Inl e \<Rightarrow> Inl e
              | Inr wa \<Rightarrow>
                  (case (if asize (lits s2 clause) = 0 then Inl OutOfBounds
                         else read_at (lits s2 clause) (asize (lits s2 clause) - 1)) of
                     Inl e \<Rightarrow> Inl e
                   | Inr wb \<Rightarrow>
                       (let s3 = s2\<lparr>watch_a := (watch_a s2)(clause := Some wa),
                                   watch_b := (watch_b s2)(clause := Some wb)\<rparr>
                        in case set_Lit_Decision wa (Some clause) s3 of
                             Inl e \<Rightarrow> Inl e
                           | Inr (False, s4) \<Rightarrow> Inr (False, s4)
                           | Inr (True, s4) \<Rightarrow>
                               (case push (propagate_literals s4) wa of
                                  Inl e \<Rightarrow> Inl e
                                | Inr q \<Rightarrow>
                                    (let s5 = s4\<lparr>propagate_literals := q\<rparr>;
                                         s6 = s5\<lparr>watch_list := (watch_list s5)
                                                 (wa := clause # watch_list s5 wa)\<rparr>;
                                         s7 = s6\<lparr>watch_list := (watch_list s6)
                                                 (wb := clause # watch_list s6 wb)\<rparr>
                                     in sat_unit_resolution s7))))))"

text \<open>\<^verbatim>\<open>sat_assert_clause\<close>: \<open>assert_attach\<close> is the function up to the last value of its local
  \<open>passed\<close>; what follows is its \<^verbatim>\<open>if(!passed)\<close>.\<close>

definition sat_assert_clause :: "cref \<Rightarrow> sat_state \<Rightarrow> error + (cref option \<times> sat_state)" where
  "sat_assert_clause clause s =
     (case assert_attach clause s of
        Inl e \<Rightarrow> Inl e
      | Inr (True, s1) \<Rightarrow> Inr (None, s1)
      | Inr (False, s1) \<Rightarrow>
          if level s1 > 1 then
            (case sat_build_asserting_clause s1 of
               Inl e \<Rightarrow> Inl e
             | Inr (c, s2) \<Rightarrow> Inr (Some c, s2))
          else Inr (Some FalseClause, s1))"

section \<open>Construction\<close>

text \<open>\<^verbatim>\<open>init_Lit\<close> sets \<^verbatim>\<open>appears_in.size = 0\<close> and \<^verbatim>\<open>appears_in.item = NULL\<close> and leaves
  \<^verbatim>\<open>appears_in.count\<close> as allocated: the written prefix of the model stays what the fresh
  memory holds, and no slot of it can be read while \<open>size\<close> is 0.\<close>

definition init_Lit :: "lref \<Rightarrow> int \<Rightarrow> vref \<Rightarrow> sat_state \<Rightarrow> sat_state" where
  "init_Lit lit lid var s =
     s\<lparr>lit_id := (lit_id s)(lit := lid),
       lit_var := (lit_var s)(lit := var),
       appears_in := (appears_in s)(lit := (appears_in s lit)\<lparr>asize := 0\<rparr>),
       watch_list := (watch_list s)(lit := []),
       learned_list := (learned_list s)(lit := [])\<rparr>"

definition init_Var :: "vref \<Rightarrow> nat \<Rightarrow> sat_state \<Rightarrow> sat_state" where
  "init_Var var vid s =
     (let s1 = s\<lparr>var_id := (var_id s)(var := vid),
                 var_mark := (var_mark s)(var := False),
                 d_level := (d_level s)(var := 0)\<rparr>;
          s2 = init_Lit (var, pos) (int vid) var s1
      in init_Lit (var, neg) (- int vid) var s2)"

text \<open>The DIMACS text is outside the model: a clause arrives as the values that \<^verbatim>\<open>strtol\<close>
  returns for the tokens of its line, and the value 0 (or the end of the tokens) ends it.

  \<^verbatim>\<open>abs\<close> is \<^verbatim>\<open>int abs(int)\<close>: its argument \<open>val\<close>, a \<^verbatim>\<open>long\<close>, is converted to \<^verbatim>\<open>int\<close>, which
  keeps the low 32 bits (\<open>int_of_long\<close>); \<^verbatim>\<open>abs(INT_MIN)\<close> overflows. The index
  \<^verbatim>\<open>abs(val)-1\<close> is inside \<^verbatim>\<open>vars.item\<close> only from 0 to \<open>vars.size - 1\<close>. The slot of the
  literal, \<^verbatim>\<open>val>0\<close>, tests the \<^verbatim>\<open>long\<close>.\<close>

definition int_of_long :: "int \<Rightarrow> int" where
  "int_of_long v = (v + 2147483648) mod 4294967296 - 2147483648"

fun read_tokens :: "int list \<Rightarrow> sat_state \<Rightarrow> error + sat_state" where
  "read_tokens [] s = Inr s"
| "read_tokens (val # rest) s =
     (if val = 0 then Inr s
      else if int_of_long val = - 2147483648 then Inl SignedOverflow
      else if 1 \<le> \<bar>int_of_long val\<bar> \<and> \<bar>int_of_long val\<bar> \<le> int (vars_size s) then
        (let lit = (VarAt (nat (\<bar>int_of_long val\<bar> - 1)), val > 0);
             s1 = s\<lparr>appears_in := (appears_in s)
                      (lit := (appears_in s lit)\<lparr>asize := Suc (asize (appears_in s lit))\<rparr>)\<rparr>
         in case push (decided_literals s1) lit of
              Inl e \<Rightarrow> Inl e
            | Inr a \<Rightarrow> read_tokens rest (s1\<lparr>decided_literals := a\<rparr>))
      else Inl OutOfBounds)"

definition read_clause :: "cref \<Rightarrow> int list \<Rightarrow> sat_state \<Rightarrow> error + sat_state" where
  "read_clause clause toks s =
     (case read_tokens toks s of
        Inl e \<Rightarrow> Inl e
      | Inr s1 \<Rightarrow>
          (let s2 = s1\<lparr>clauses_count := Suc (clauses_count s1)\<rparr>;
               s3 = init_Clause clause (clauses_count s2) (length (item (decided_literals s2))) s2;
               s4 = s3\<lparr>lits := (lits s3)(clause := (lits s3 clause)\<lparr>item := item (decided_literals s3)\<rparr>)\<rparr>
           in Inr (s4\<lparr>decided_literals := (decided_literals s4)\<lparr>item := []\<rparr>\<rparr>)))"

fun init_vars :: "nat \<Rightarrow> nat \<Rightarrow> sat_state \<Rightarrow> sat_state" where
  "init_vars i 0 s = s"
| "init_vars i (Suc k) s =
     (let s1 = s\<lparr>vars_count := Suc (vars_count s)\<rparr>
      in init_vars (Suc i) k (init_Var (VarAt i) (vars_count s1) s1))"

fun read_clauses :: "nat \<Rightarrow> int list list \<Rightarrow> sat_state \<Rightarrow> error + sat_state" where
  "read_clauses i [] s = Inr s"
| "read_clauses i (toks # rest) s =
     (let clause = ClauseAt i in
      case read_clause clause toks s of
        Inl e \<Rightarrow> Inl e
      | Inr s1 \<Rightarrow>
          (case read_at (lits s1 clause) 0 of
             Inl e \<Rightarrow> Inl e
           | Inr wa \<Rightarrow>
               (let s2 = s1\<lparr>watch_a := (watch_a s1)(clause := Some wa)\<rparr>;
                    s3 = s2\<lparr>watch_list := (watch_list s2)(wa := clause # watch_list s2 wa)\<rparr>
                in if length (item (lits s3 clause)) = 1
                   then read_clauses (Suc i) rest (s3\<lparr>watch_b := (watch_b s3)(clause := None)\<rparr>)
                   else
                     (case read_at (lits s3 clause) 1 of
                        Inl e \<Rightarrow> Inl e
                      | Inr wb \<Rightarrow>
                          (let s4 = s3\<lparr>watch_b := (watch_b s3)(clause := Some wb)\<rparr>;
                               s5 = s4\<lparr>watch_list := (watch_list s4)(wb := clause # watch_list s4 wb)\<rparr>
                           in read_clauses (Suc i) rest s5)))))"

definition INIT_appears_in :: "lref \<Rightarrow> sat_state \<Rightarrow> sat_state" where
  "INIT_appears_in lit s =
     (if asize (appears_in s lit) \<noteq> 0
      then s\<lparr>appears_in := (appears_in s)(lit := \<lparr>item = [], asize = asize (appears_in s lit)\<rparr>)\<rparr>
      else s)"

fun init_appears :: "nat \<Rightarrow> nat \<Rightarrow> sat_state \<Rightarrow> sat_state" where
  "init_appears i 0 s = s"
| "init_appears i (Suc k) s =
     init_appears (Suc i) k (INIT_appears_in (VarAt i, neg) (INIT_appears_in (VarAt i, pos) s))"

fun appears_fill :: "cref \<Rightarrow> sat_state \<Rightarrow> lref list \<Rightarrow> nat \<Rightarrow> error + sat_state" where
  "appears_fill clause s ls 0 = Inr s"
| "appears_fill clause s [] (Suc k) = Inl UninitRead"
| "appears_fill clause s (lit # ls) (Suc k) =
     (case push (appears_in s lit) clause of
        Inl e \<Rightarrow> Inl e
      | Inr a \<Rightarrow> appears_fill clause (s\<lparr>appears_in := (appears_in s)(lit := a)\<rparr>) ls k)"

text \<open>The last loop of \<^verbatim>\<open>read_sat_cnf\<close>; \<open>passed\<close> is its local flag.\<close>

fun root_units :: "bool \<Rightarrow> nat \<Rightarrow> nat \<Rightarrow> sat_state \<Rightarrow> error + sat_state" where
  "root_units passed i 0 s = Inr s"
| "root_units passed i (Suc k) s =
     (let clause = ClauseAt i in
      if length (item (lits s clause)) > 1 \<or> \<not> passed then
        (case appears_fill clause s (item (lits s clause)) (asize (lits s clause)) of
           Inl e \<Rightarrow> Inl e
         | Inr s1 \<Rightarrow> root_units passed (Suc i) k s1)
      else
        (case watch_a s clause of
           None \<Rightarrow> Inl NullDeref
         | Some wa \<Rightarrow>
             (case push (appears_in s wa) clause of
                Inl e \<Rightarrow> Inl e
              | Inr a \<Rightarrow>
                  (let s1 = s\<lparr>appears_in := (appears_in s)(wa := a)\<rparr> in
                   case set_Lit_Decision wa (Some clause) s1 of
                     Inl e \<Rightarrow> Inl e
                   | Inr (passed', s2) \<Rightarrow>
                       (let s3 = (if \<not> passed'
                                  then s2\<lparr>decided_literals := (decided_literals s2)
                                            \<lparr>item := butlast (item (decided_literals s2))\<rparr>,
                                          is_subsumed := (is_subsumed s2)(clause := False)\<rparr>
                                  else s2)
                        in case push (propagate_literals s3) wa of
                             Inl e \<Rightarrow> Inl e
                           | Inr q \<Rightarrow>
                               root_units passed' (Suc i) k (s3\<lparr>propagate_literals := q\<rparr>))))))"

text \<open>\<^verbatim>\<open>read_sat_cnf\<close> after the header \<^verbatim>\<open>p cnf n m\<close> has been read; the file holds the \<open>m\<close>
  clauses \<open>cls\<close>.\<close>

definition read_sat_cnf :: "nat \<Rightarrow> int list list \<Rightarrow> sat_state \<Rightarrow> error + sat_state" where
  "read_sat_cnf n cls s0 =
     (let s1 = s0\<lparr>vars_size := n, clauses_size := length cls\<rparr>;
          s2 = init_vars 0 (vars_size s1) (s1\<lparr>vars_count := 0\<rparr>);
          s3 = s2\<lparr>learned_clauses := [], subsumed_clauses := []\<rparr>;
          s4 = s3\<lparr>propagate_literals := \<lparr>item = [], asize = vars_size s3\<rparr>,
                  decided_literals := \<lparr>item = [], asize = vars_size s3 + 1\<rparr>\<rparr>;
          s5 = s4\<lparr>clauses_count := 0\<rparr>
      in case read_clauses 0 cls s5 of
           Inl e \<Rightarrow> Inl e
         | Inr s6 \<Rightarrow>
             root_units True 0 (clauses_size s6) (init_appears 0 (vars_size s6) s6))"

text \<open>\<^verbatim>\<open>sat_state_new\<close>: \<open>mem\<close> is the memory as \<^verbatim>\<open>malloc\<close> hands it out, so a field that the
  constructor does not write keeps an arbitrary value.\<close>

definition sat_state_new :: "sat_state \<Rightarrow> nat \<Rightarrow> int list list \<Rightarrow> error + sat_state" where
  "sat_state_new mem n cls =
     (let s1 = mem\<lparr>level := 1\<rparr>;
          s2 = init_Lit (Contradiction, pos) 0 Contradiction s1;
          s3 = init_Clause FalseClause 0 0 s2;
          s4 = s3\<lparr>assertion_level := (assertion_level s3)(FalseClause := 0)\<rparr>
      in case read_sat_cnf n cls s4 of
           Inl e \<Rightarrow> Inl e
         | Inr s5 \<Rightarrow> Inr (s5\<lparr>marks := replicate (vars_size s5 + 1) False\<rparr>))"

section \<open>Auxiliary facts\<close>

subsection \<open>The scan for a replacement watch\<close>

text \<open>The literals at which the scan of \<^verbatim>\<open>sat_unwatched_literal\<close> stops: an implied literal,
  or a literal of an uninstantiated variable that is neither watch of the clause. This
  predicate and \<open>other_watch\<close> are not functions of the source; they name what the source's
  scan and its choice of \<^verbatim>\<open>other_lit\<close> compute, so that claims can speak of them.\<close>

definition candidate :: "sat_state \<Rightarrow> cref \<Rightarrow> lref \<Rightarrow> bool" where
  "candidate s clause m =
     (sat_implied_literal s m \<or>
      (\<not> sat_instantiated_var s (lit_var s m) \<and>
       Some m \<noteq> watch_a s clause \<and> Some m \<noteq> watch_b s clause))"

definition other_watch :: "sat_state \<Rightarrow> lref \<Rightarrow> cref \<Rightarrow> lref option" where
  "other_watch s clit clause =
     (if Some clit = watch_a s clause then watch_b s clause else watch_a s clause)"

lemma unwatched_scan_find:
  "length ls = k \<Longrightarrow>
   unwatched_scan c s ls k =
     (case find (candidate s c) ls of
        None \<Rightarrow> Inr (None, s)
      | Some m \<Rightarrow> if sat_implied_literal s m then Inr (None, sat_subsume_clause c s)
                  else Inr (Some m, s))"
  by (induction ls arbitrary: k) (auto simp: candidate_def sat_implied_literal_def)

lemma sat_unwatched_literal_find:
  "length (item (lits s c)) = asize (lits s c) \<Longrightarrow>
   sat_unwatched_literal c s =
     (case find (candidate s c) (item (lits s c)) of
        None \<Rightarrow> Inr (None, s)
      | Some m \<Rightarrow> if sat_implied_literal s m then Inr (None, sat_subsume_clause c s)
                  else Inr (Some m, s))"
  by (simp add: sat_unwatched_literal_def unwatched_scan_find)

subsection \<open>Unit resolution\<close>

lemma unit_loop_empties:
  "unit_loop i s = Inr (True, s') \<Longrightarrow> item (propagate_literals s') = []"
proof (induction i s rule: unit_loop.induct)
  case (1 i s)
  then show ?case
    by (subst (asm) (2) unit_loop.simps)
       (auto split: if_splits sum.splits prod.splits bool.splits)
qed

subsection \<open>The construction on \<^verbatim>\<open>p cnf 1 1 / 1 0\<close>\<close>

lemma sat_state_new_unit_cnf:
  "\<exists>s. sat_state_new mem 1 [[1]] = Inr s \<and> level s = 1 \<and>
        d_level s (VarAt 0) = 1 \<and> d_value s (VarAt 0) \<and>
        item (decided_literals s) = [(VarAt 0, pos)] \<and>
        item (propagate_literals s) = [(VarAt 0, pos)] \<and>
        \<not> is_subsumed s (ClauseAt 0) \<and> sat_learned_clause_count s = 0 \<and>
        (\<exists>s'. sat_unit_resolution s = Inr (True, s') \<and>
              item (propagate_literals s') = [] \<and> is_subsumed s' (ClauseAt 0) \<and>
              d_level s' (VarAt 0) = 1 \<and> d_value s' (VarAt 0) \<and>
              sat_learned_clause_count s' = 0)"
  by (simp add: sat_state_new_def read_sat_cnf_def read_clause_def Let_def read_at_def
        init_Clause_def init_Var_def init_Lit_def pos_def neg_def push_def INIT_appears_in_def
        set_Lit_Decision_def sat_instantiated_var_def set_Var_Decision_def
        sat_learned_clause_count_def sat_unit_resolution_def unit_loop.simps
        propagate_lit_decision_def sat_subsume_clause_def watch_loop.simps watch_visit_def
        sat_subsumed_clause_def sat_unwatched_literal_def sat_implied_literal_def
        sat_contradiction_def int_of_long_def)

subsection \<open>Fields that propagation and undo never write\<close>

definition prop_fixed where
  "prop_fixed s =
     (level s, marks s, (vars_size s, vars_count s, clauses_size s, clauses_count s),
      asize (decided_literals s), asize (propagate_literals s),
      (var_id s, var_mark s, d_order s, d_dominator s),
      (lit_id s, lit_var s, appears_in s),
      (c_id s, assertion_level s, lits s, c_mark s), malloc_next s)"

lemma prop_fixed_subsume [simp]: "prop_fixed (sat_subsume_clause c s) = prop_fixed s"
  by (simp add: prop_fixed_def sat_subsume_clause_def)

lemma prop_fixed_contradiction:
  "sat_contradiction imp s = Inr (b, s') \<Longrightarrow> prop_fixed s' = prop_fixed s"
  by (auto simp: sat_contradiction_def set_Var_Decision_def Let_def push_def prop_fixed_def
           split: sum.splits if_splits)

lemma prop_fixed_set_Lit_Decision:
  "set_Lit_Decision l imp s = Inr (b, s') \<Longrightarrow> prop_fixed s' = prop_fixed s"
  by (auto simp: set_Lit_Decision_def set_Var_Decision_def Let_def push_def
           split: sum.splits if_splits option.splits dest: prop_fixed_contradiction)
     (simp add: prop_fixed_def)

lemma prop_fixed_unwatched:
  "sat_unwatched_literal c s = Inr (r, s') \<Longrightarrow> prop_fixed s' = prop_fixed s"
  by (auto dest: sat_unwatched_literal_frame)

lemma prop_fixed_watch_visit:
  "watch_visit clit k s = Inr v \<Longrightarrow>
     (case v of Continue k' s' \<Rightarrow> prop_fixed s' = prop_fixed s
              | Return b s' \<Rightarrow> prop_fixed s' = prop_fixed s)"
  apply (auto simp: watch_visit_def Let_def push_def
           split: if_splits sum.splits prod.splits option.splits bool.splits visit.splits
           dest!: prop_fixed_unwatched prop_fixed_set_Lit_Decision prop_fixed_contradiction)
  apply (simp_all add: prop_fixed_def)
  done

text \<open>A relation between states that every pass of the loop body establishes, and that is
  reflexive and transitive, holds between the start and the end of the loops.\<close>

lemma watch_loop_rel:
  assumes refl: "\<And>s. R s s"
      and trans: "\<And>a b c. R a b \<Longrightarrow> R b c \<Longrightarrow> R a c"
      and step: "\<And>clit k s v. watch_visit clit k s = Inr v \<Longrightarrow> k < length (watch_list s clit) \<Longrightarrow>
                   (case v of Continue k' s' \<Rightarrow> R s s' | Return b s' \<Rightarrow> R s s')"
  shows "watch_loop clit k s = Inr (b, s') \<Longrightarrow> R s s'"
proof (induction clit k s rule: watch_loop.induct)
  case (1 clit k s)
  show ?case
  proof (cases "k < length (watch_list s clit)")
    case False
    with "1.prems" show ?thesis by (simp add: watch_loop.simps refl)
  next
    case True
    show ?thesis
    proof (cases "watch_visit clit k s")
      case (Inl e)
      with True "1.prems" show ?thesis by (simp add: watch_loop.simps)
    next
      case (Inr v)
      show ?thesis
      proof (cases v)
        case (Return b' s1)
        with Inr True "1.prems" have "s' = s1" by (simp add: watch_loop.simps)
        with Return Inr step[OF Inr True] show ?thesis by simp
      next
        case (Continue k' s1)
        with Inr True "1.prems" have "watch_loop clit k' s1 = Inr (b, s')"
          by (simp add: watch_loop.simps)
        with "1.IH"[OF True Inr Continue] have "R s1 s'" .
        moreover from Inr Continue step[OF Inr True] have "R s s1" by simp
        ultimately show ?thesis by (rule trans[rotated])
      qed
    qed
  qed
qed

lemma prop_fixed_watch_loop:
  "watch_loop clit k s = Inr (b, s') \<Longrightarrow> prop_fixed s' = prop_fixed s"
  by (rule watch_loop_rel[where R="\<lambda>s s'. prop_fixed s' = prop_fixed s"])
     (auto dest: prop_fixed_watch_visit split: visit.splits)

lemma prop_fixed_subsume_scan:
  "subsume_scan s cs k = Inr s' \<Longrightarrow> prop_fixed s' = prop_fixed s"
  by (induction s cs k rule: subsume_scan.induct) auto

lemma prop_fixed_fold_subsume [simp]:
  "prop_fixed (fold sat_subsume_clause cs s) = prop_fixed s"
  by (induction cs arbitrary: s) auto

lemma prop_fixed_propagate:
  "propagate_lit_decision lit s = Inr (b, s') \<Longrightarrow> prop_fixed s' = prop_fixed s"
  by (auto simp: propagate_lit_decision_def Let_def split: sum.splits
           dest!: prop_fixed_subsume_scan prop_fixed_watch_loop)

lemma unit_loop_rel:
  assumes refl: "\<And>s. R s s"
      and trans: "\<And>a b c. R a b \<Longrightarrow> R b c \<Longrightarrow> R a c"
      and step: "\<And>lit s b s'. propagate_lit_decision lit s = Inr (b, s') \<Longrightarrow> R s s'"
      and fin: "\<And>s. R s (s\<lparr>propagate_literals := (propagate_literals s)\<lparr>item := []\<rparr>\<rparr>)"
  shows "unit_loop i s = Inr (b, s') \<Longrightarrow> R s s'"
proof (induction i s rule: unit_loop.induct)
  case (1 i s)
  show ?case
  proof (cases "i < length (item (propagate_literals s))")
    case False
    with "1.prems" show ?thesis by (auto simp: unit_loop.simps fin)
  next
    case True
    show ?thesis
    proof (cases "propagate_lit_decision (item (propagate_literals s) ! i) s")
      case (Inl e)
      with True "1.prems" show ?thesis by (simp add: unit_loop.simps)
    next
      case (Inr r)
      obtain b1 s1 where r: "r = (b1, s1)" by (cases r)
      from step Inr r have s1: "R s s1" by blast
      show ?thesis
      proof (cases b1)
        case False
        with Inr r True "1.prems" have "s' = s1" by (simp add: unit_loop.simps)
        with s1 show ?thesis by simp
      next
        case True': True
        with Inr r True "1.prems" have "unit_loop (Suc i) s1 = Inr (b, s')"
          by (simp add: unit_loop.simps)
        with "1.IH"[OF True Inr r[symmetric] True'[THEN eqTrueI]] have "R s1 s'" by simp
        with s1 show ?thesis by (rule trans)
      qed
    qed
  qed
qed

lemma prop_fixed_unit_loop:
  "unit_loop i s = Inr (b, s') \<Longrightarrow> prop_fixed s' = prop_fixed s"
  by (rule unit_loop_rel[where R="\<lambda>s s'. prop_fixed s' = prop_fixed s"])
     (auto dest: prop_fixed_propagate simp: prop_fixed_def)


lemma prop_fixed_unit_resolution:
  "sat_unit_resolution s = Inr (b, s') \<Longrightarrow> prop_fixed s' = prop_fixed s"
  unfolding sat_unit_resolution_def by (rule prop_fixed_unit_loop)

lemma prop_fixed_undo_trail [simp]: "prop_fixed (undo_trail s) = prop_fixed s"
proof (induction s rule: undo_trail.induct)
  case (1 s)
  show ?case
  proof (cases "item (decided_literals s) \<noteq> [] \<and>
         d_level s (lit_var s (last (item (decided_literals s)))) = level s")
    case True
    from "1.IH"[OF True] True show ?thesis
      by (subst undo_trail.simps) (simp add: prop_fixed_def unset_Var_Decision_def)
  next
    case False
    then show ?thesis by (subst undo_trail.simps) auto
  qed
qed

lemma prop_fixed_undo_subsumed [simp]: "prop_fixed (undo_subsumed cs s) = prop_fixed s"
  by (induction cs s rule: undo_subsumed.induct) (simp_all add: prop_fixed_def)

lemma prop_fixed_undo_unit_resolution [simp]:
  "prop_fixed (sat_undo_unit_resolution s) = prop_fixed s"
proof -
  have "prop_fixed (sat_undo_unit_resolution s)
        = prop_fixed (undo_subsumed (subsumed_clauses (undo_trail s)) (undo_trail s))"
    by (simp add: sat_undo_unit_resolution_def Let_def prop_fixed_def)
  then show ?thesis by simp
qed

lemma prop_fixed_learned_scan:
  "learned_scan c s ls k = Inr s' \<Longrightarrow> prop_fixed s' = prop_fixed s"
  by (induction c s ls k rule: learned_scan.induct) (auto simp: prop_fixed_def)

lemma prop_fixed_assert_attach:
  "assert_attach c s = Inr (b, s') \<Longrightarrow> prop_fixed s' = prop_fixed s"
  apply (auto simp: assert_attach_def Let_def push_def
           split: sum.splits if_splits prod.splits bool.splits
           dest!: prop_fixed_learned_scan prop_fixed_set_Lit_Decision prop_fixed_unit_resolution)
  apply (simp_all add: prop_fixed_def)
  done

subsection \<open>What the conflict analysis writes\<close>

text \<open>\<open>no_dom s\<close> is \<open>s\<close> with the two fields that \<^verbatim>\<open>sat_compute_UIP\<close> writes blanked: two
  states with the same \<open>no_dom\<close> differ at most in \<^verbatim>\<open>decision.order\<close> and
  \<^verbatim>\<open>decision.dominator\<close>.\<close>

definition no_dom :: "sat_state \<Rightarrow> sat_state" where
  "no_dom s = s\<lparr>d_order := (\<lambda>_. 0), d_dominator := (\<lambda>_. None)\<rparr>"

lemma uip_scan_back_frame:
  "uip_scan_back i s = Inr (j, s') \<Longrightarrow> no_dom s' = no_dom s"
proof (induction i s rule: uip_scan_back.induct)
  case (1 i s)
  then show ?case
    by (subst (asm) (2) uip_scan_back.simps)
       (auto split: sum.splits if_splits simp: Let_def no_dom_def)
qed

lemma uip_preds_frame:
  "uip_preds s lit ps k = Inr s' \<Longrightarrow> no_dom s' = no_dom s"
  by (induction s lit ps k rule: uip_preds.induct)
     (auto split: if_splits option.splits sum.splits simp: no_dom_def)

lemma uip_forward_frame:
  "uip_forward s ls = Inr s' \<Longrightarrow> no_dom s' = no_dom s"
  by (induction s ls rule: uip_forward.induct)
     (auto split: option.splits sum.splits dest!: uip_preds_frame)

lemma sat_compute_UIP_frame:
  "sat_compute_UIP s = Inr (u, s') \<Longrightarrow> no_dom s' = no_dom s"
  by (auto simp: sat_compute_UIP_def Let_def split: if_splits sum.splits prod.splits
           dest!: uip_scan_back_frame uip_forward_frame)
     (simp add: no_dom_def)

text \<open>\<open>no_marks\<close> blanks the scratch array as well.\<close>

definition no_marks :: "sat_state \<Rightarrow> sat_state" where
  "no_marks s = s\<lparr>marks := []\<rparr>"

lemma mark_scan_frame:
  "mark_scan s ls k n = Inr (n', s') \<Longrightarrow> no_marks s' = no_marks s \<and> length (marks s') = length (marks s)"
  by (induction s ls k n rule: mark_scan.induct)
     (auto split: if_splits simp: no_marks_def)

lemma build_back_frame:
  "build_back uip i n s = Inr (n', s') \<Longrightarrow> no_marks s' = no_marks s \<and> length (marks s') = length (marks s)"
proof (induction uip i n s rule: build_back.induct)
  case (1 uip i n s)
  then show ?case
    by (subst (asm) (2) build_back.simps)
       (auto split: sum.splits if_splits option.splits prod.splits dest!: mark_scan_frame)
qed


lemma build_fwd_frame:
  "build_fwd c i s = Inr s' \<Longrightarrow>
     s' = s\<lparr>marks := marks s', lits := (lits s)(c := lits s' c),
            assertion_level := (assertion_level s)(c := assertion_level s' c)\<rparr> \<and>
     length (marks s') = length (marks s) \<and>
     assertion_level s c \<le> assertion_level s' c \<and>
     length (item (lits s c)) \<le> length (item (lits s' c))"
proof (induction c i s rule: build_fwd.induct)
  case (1 c i s)
  show ?case
  proof (cases "read_at (decided_literals s) i")
    case (Inl e)
    with "1.prems" show ?thesis by (subst (asm) build_fwd.simps) simp
  next
    case (Inr lit)
    note lit = Inr
    show ?thesis
    proof (cases "d_level s (lit_var s lit) < level s")
      case False
      with lit "1.prems" have "s' = s" by (subst (asm) build_fwd.simps) simp
      then show ?thesis by simp
    next
      case lv: True
      show ?thesis
      proof (cases "var_id s (lit_var s lit) < length (marks s)")
        case False
        with lit lv "1.prems" show ?thesis by (subst (asm) build_fwd.simps) simp
      next
        case inb: True
        show ?thesis
        proof (cases "marks s ! var_id s (lit_var s lit)")
          case False
          with lit lv inb "1.prems" have "build_fwd c (Suc i) s = Inr s'"
            by (subst (asm) build_fwd.simps) simp
          from "1.IH"(2)[OF lit lv inb False this] show ?thesis .
        next
          case mk: True
          show ?thesis
          proof (cases "push (lits s c) (lit_var s lit, \<not> d_value s (lit_var s lit))")
            case (Inl e)
            with lit lv inb mk "1.prems" show ?thesis by (subst (asm) build_fwd.simps) simp
          next
            case (Inr a)
            let ?s1 = "s\<lparr>marks := (marks s)[var_id s (lit_var s lit) := False],
                            lits := (lits s)(c := a),
                            assertion_level := (assertion_level s)
                              (c := (if d_level s (lit_var s lit) > assertion_level s c
                                     then d_level s (lit_var s lit)
                                     else assertion_level s c))\<rparr>"
            from lit lv inb mk Inr "1.prems" have r: "build_fwd c (Suc i) ?s1 = Inr s'"
              by (subst (asm) build_fwd.simps) simp
            from "1.IH"(1)[OF lit lv inb mk Inr r]
            have ih: "s' = ?s1\<lparr>marks := marks s', lits := (lits ?s1)(c := lits s' c),
                     assertion_level := (assertion_level ?s1)(c := assertion_level s' c)\<rparr>"
              "length (marks s') = length (marks ?s1)"
              "assertion_level ?s1 c \<le> assertion_level s' c"
              "length (item (lits ?s1 c)) \<le> length (item (lits s' c))"
              by blast+
            from Inr have a: "length (item (lits s c)) \<le> length (item a)"
              by (auto simp: push_def split: if_splits)
            from ih(1) have "s' = s\<lparr>marks := marks s', lits := (lits s)(c := lits s' c),
                 assertion_level := (assertion_level s)(c := assertion_level s' c)\<rparr>"
              by simp
            moreover from ih(2) have "length (marks s') = length (marks s)" by simp
            moreover from ih(3) have "assertion_level s c \<le> assertion_level s' c"
              by (simp split: if_splits)
            moreover from ih(4) a have "length (item (lits s c)) \<le> length (item (lits s' c))"
              by simp
            ultimately show ?thesis by blast
          qed
        qed
      qed
    qed
  qed
qed

text \<open>\<open>no_build c s\<close> blanks what \<^verbatim>\<open>sat_build_asserting_clause\<close> writes when it allocates the
  clause \<open>c\<close>: the allocator's state, the fields of the analysis, and the fields of \<open>c\<close>.\<close>

definition no_build :: "cref \<Rightarrow> sat_state \<Rightarrow> sat_state" where
  "no_build c s =
     s\<lparr>d_order := (\<lambda>_. 0), d_dominator := (\<lambda>_. None), marks := [], malloc_next := 0,
       c_id := (c_id s)(c := 0), c_mark := (c_mark s)(c := False),
       is_subsumed := (is_subsumed s)(c := False),
       watch_a := (watch_a s)(c := None), watch_b := (watch_b s)(c := None),
       lits := (lits s)(c := \<lparr>item = [], asize = 0\<rparr>),
       assertion_level := (assertion_level s)(c := 0)\<rparr>"

lemma no_build_no_dom: "no_dom s' = no_dom s \<Longrightarrow> no_build c s' = no_build c s"
proof -
  assume h: "no_dom s' = no_dom s"
  have "no_build c s' = no_build c (no_dom s')" by (simp add: no_build_def no_dom_def)
  also have "\<dots> = no_build c (no_dom s)" by (simp add: h)
  also have "\<dots> = no_build c s" by (simp add: no_build_def no_dom_def)
  finally show ?thesis .
qed

lemma no_build_no_marks: "no_marks s' = no_marks s \<Longrightarrow> no_build c s' = no_build c s"
proof -
  assume h: "no_marks s' = no_marks s"
  have "no_build c s' = no_build c (no_marks s')" by (simp add: no_build_def no_marks_def)
  also have "\<dots> = no_build c (no_marks s)" by (simp add: h)
  also have "\<dots> = no_build c s" by (simp add: no_build_def no_marks_def)
  finally show ?thesis .
qed

lemma no_dom_marks_length: "no_dom s' = no_dom s \<Longrightarrow> marks s' = marks s"
  by (drule arg_cong[where f=marks]) (simp add: no_dom_def)

lemma no_build_fwd:
  assumes "build_fwd c i s = Inr s'"
  shows "no_build c s' = no_build c s"
proof -
  from build_fwd_frame[OF assms]
  have "s' = s\<lparr>marks := marks s', lits := (lits s)(c := lits s' c),
            assertion_level := (assertion_level s)(c := assertion_level s' c)\<rparr>" by blast
  then have "no_build c s' = no_build c (s\<lparr>marks := marks s', lits := (lits s)(c := lits s' c),
            assertion_level := (assertion_level s)(c := assertion_level s' c)\<rparr>)" by simp
  also have "\<dots> = no_build c s" by (simp add: no_build_def)
  finally show ?thesis .
qed

lemma sat_build_asserting_clause_frame:
  assumes "sat_build_asserting_clause s = Inr (c, s')"
  shows "c = Malloc (malloc_next s)" "malloc_next s' = Suc (malloc_next s)"
    "no_build c s' = no_build c s" "length (marks s') = length (marks s)"
    "1 \<le> assertion_level s' c" "1 \<le> length (item (lits s' c))"
proof -
  let ?c = "Malloc (malloc_next s)"
  let ?s0 = "s\<lparr>malloc_next := Suc (malloc_next s)\<rparr>"
  from assms obtain uip s1 where u: "sat_compute_UIP ?s0 = Inr (uip, s1)"
    by (auto simp: sat_build_asserting_clause_def Let_def split: sum.splits)
  from assms u obtain n s2 where
    b: "build_back uip (length (item (decided_literals s1)) - 1) 1 s1 = Inr (n, s2)"
    by (auto simp: sat_build_asserting_clause_def Let_def split: sum.splits if_splits)
  let ?s4 = "(init_Clause ?c ((case learned_clauses s2 of [] \<Rightarrow> clauses_size s2 | c # _ \<Rightarrow> c_id s2 c) + 1) n s2)
              \<lparr>assertion_level := (assertion_level s2)(?c := 1)\<rparr>"
  from assms u b obtain v a where v: "uip = Some v"
     and a: "push (lits ?s4 ?c) (v, \<not> d_value ?s4 v) = Inr a"
    by (auto simp: sat_build_asserting_clause_def Let_def init_Clause_def
        split: sum.splits if_splits option.splits)
  let ?s5 = "?s4\<lparr>lits := (lits ?s4)(?c := a)\<rparr>"
  from assms u b v a have c: "c = ?c"
    by (auto simp: sat_build_asserting_clause_def Let_def init_Clause_def
        split: sum.splits if_splits option.splits)
  then show "c = Malloc (malloc_next s)" .
  from assms u b v a have fin: "s' = ?s5 \<or> build_fwd ?c 0 ?s5 = Inr s'"
    by (auto simp: sat_build_asserting_clause_def Let_def init_Clause_def
        split: sum.splits if_splits option.splits)
  have n1: "no_build ?c s1 = no_build ?c s"
    using no_build_no_dom[OF sat_compute_UIP_frame[OF u], of ?c] by (simp add: no_build_def)
  have n2: "no_build ?c s2 = no_build ?c s1"
    using build_back_frame[OF b] by (auto intro: no_build_no_marks)
  have n5: "no_build ?c ?s5 = no_build ?c s2" by (simp add: no_build_def init_Clause_def)
  have m1: "marks s1 = marks s" using no_dom_marks_length[OF sat_compute_UIP_frame[OF u]] by simp
  have m2: "length (marks s2) = length (marks s1)" using build_back_frame[OF b] by simp
  have mn1: "malloc_next s1 = Suc (malloc_next s)"
    using sat_compute_UIP_frame[OF u, THEN arg_cong[where f=malloc_next]] by (simp add: no_dom_def)
  have mn2: "malloc_next s2 = malloc_next s1"
    using build_back_frame[OF b, THEN conjunct1, THEN arg_cong[where f=malloc_next]]
    by (simp add: no_marks_def)
  have a5: "assertion_level ?s5 ?c = 1" by simp
  have l5: "1 \<le> length (item (lits ?s5 ?c))"
    using a by (auto simp: push_def init_Clause_def split: if_splits)
  from fin show "no_build c s' = no_build c s"
    using n1 n2 n5 c by (auto dest: no_build_fwd)
  from fin show "length (marks s') = length (marks s)"
    using m1 m2 by (auto dest!: build_fwd_frame simp: init_Clause_def)
  from fin show "malloc_next s' = Suc (malloc_next s)"
  proof
    assume "s' = ?s5" then show ?thesis using mn1 mn2 by (simp add: init_Clause_def)
  next
    assume "build_fwd ?c 0 ?s5 = Inr s'"
    from build_fwd_frame[OF this, THEN conjunct1, THEN arg_cong[where f=malloc_next]]
    show ?thesis using mn1 mn2 by (simp add: init_Clause_def)
  qed
  from fin show "1 \<le> assertion_level s' c"
  proof
    assume "s' = ?s5" then show ?thesis using c by simp
  next
    assume "build_fwd ?c 0 ?s5 = Inr s'"
    from build_fwd_frame[OF this] a5 show ?thesis using c by simp
  qed
  from fin show "1 \<le> length (item (lits s' c))"
  proof
    assume "s' = ?s5" then show ?thesis using c l5 by simp
  next
    assume "build_fwd ?c 0 ?s5 = Inr s'"
    from build_fwd_frame[OF this] l5 show ?thesis using c by simp
  qed
qed

subsection \<open>What an assignment and its undo write\<close>

text \<open>\<open>no_trail\<close> blanks the trail, the decision records and the subsumption bookkeeping.\<close>

definition no_trail :: "sat_state \<Rightarrow> sat_state" where
  "no_trail s =
     s\<lparr>d_level := (\<lambda>_. 0), d_value := (\<lambda>_. False), d_implied_by := (\<lambda>_. None),
       decided_literals := (decided_literals s)\<lparr>item := []\<rparr>,
       is_subsumed := (\<lambda>_. False), subsumed_clauses := []\<rparr>"

lemma no_trail_fields:
  assumes "no_trail s' = no_trail s"
  shows "watch_a s' = watch_a s" "watch_b s' = watch_b s" "watch_list s' = watch_list s"
    "lits s' = lits s" "clauses_size s' = clauses_size s" "level s' = level s"
    "propagate_literals s' = propagate_literals s" "lit_var s' = lit_var s"
    "lit_id s' = lit_id s" "marks s' = marks s" "assertion_level s' = assertion_level s"
    "asize (decided_literals s') = asize (decided_literals s)"
    "malloc_next s' = malloc_next s" "var_id s' = var_id s" "appears_in s' = appears_in s"
    "learned_list s' = learned_list s" "learned_clauses s' = learned_clauses s"
  using assms[THEN arg_cong[where f=watch_a]] assms[THEN arg_cong[where f=watch_b]]
    assms[THEN arg_cong[where f=watch_list]] assms[THEN arg_cong[where f=lits]]
    assms[THEN arg_cong[where f=clauses_size]] assms[THEN arg_cong[where f=level]]
    assms[THEN arg_cong[where f=propagate_literals]] assms[THEN arg_cong[where f=lit_var]]
    assms[THEN arg_cong[where f=lit_id]] assms[THEN arg_cong[where f=marks]]
    assms[THEN arg_cong[where f=assertion_level]]
    assms[THEN arg_cong[where f="\<lambda>s. asize (decided_literals s)"]]
    assms[THEN arg_cong[where f=malloc_next]] assms[THEN arg_cong[where f=var_id]]
    assms[THEN arg_cong[where f=appears_in]] assms[THEN arg_cong[where f=learned_list]]
    assms[THEN arg_cong[where f=learned_clauses]]
  by (simp_all add: no_trail_def)

lemma no_trail_subsume [simp]: "no_trail (sat_subsume_clause c s) = no_trail s"
  by (simp add: no_trail_def sat_subsume_clause_def)

lemma no_trail_contradiction:
  "sat_contradiction imp s = Inr (b, s') \<Longrightarrow> no_trail s' = no_trail s"
  by (auto simp: sat_contradiction_def set_Var_Decision_def Let_def push_def no_trail_def
           split: sum.splits if_splits)

lemma no_trail_set_Lit_Decision:
  "set_Lit_Decision l imp s = Inr (b, s') \<Longrightarrow> no_trail s' = no_trail s"
  by (auto simp: set_Lit_Decision_def set_Var_Decision_def Let_def push_def
           split: sum.splits if_splits option.splits dest: no_trail_contradiction)
     (simp add: no_trail_def)

lemma no_trail_unwatched:
  "sat_unwatched_literal c s = Inr (r, s') \<Longrightarrow> no_trail s' = no_trail s"
  by (auto dest: sat_unwatched_literal_frame)

lemma no_trail_subsume_scan:
  "subsume_scan s cs k = Inr s' \<Longrightarrow> no_trail s' = no_trail s"
  by (induction s cs k rule: subsume_scan.induct) auto

lemma no_trail_fold_subsume [simp]:
  "no_trail (fold sat_subsume_clause cs s) = no_trail s"
  by (induction cs arbitrary: s) auto

lemma no_trail_undo_trail [simp]: "no_trail (undo_trail s) = no_trail s"
proof (induction s rule: undo_trail.induct)
  case (1 s)
  show ?case
  proof (cases "item (decided_literals s) \<noteq> [] \<and>
         d_level s (lit_var s (last (item (decided_literals s)))) = level s")
    case True
    from "1.IH"[OF True] True show ?thesis
      by (subst undo_trail.simps) (simp add: no_trail_def unset_Var_Decision_def)
  next
    case False
    then show ?thesis by (subst undo_trail.simps) auto
  qed
qed

lemma no_trail_undo_subsumed [simp]: "no_trail (undo_subsumed cs s) = no_trail s"
  by (induction cs s rule: undo_subsumed.induct) (simp_all add: no_trail_def)

subsection \<open>The watches of the original clauses\<close>

definition orig_ok :: "sat_state \<Rightarrow> cref \<Rightarrow> bool" where
  "orig_ok s c =
     (length (item (lits s c)) = asize (lits s c) \<and> 1 \<le> asize (lits s c) \<and>
      (asize (lits s c) = 1 \<longrightarrow>
         watch_a s c = Some (item (lits s c) ! 0) \<and> watch_b s c = None) \<and>
      (asize (lits s c) \<noteq> 1 \<longrightarrow> watch_b s c \<noteq> None))"

definition originals_ok :: "sat_state \<Rightarrow> bool" where
  "originals_ok s = (\<forall>i < clauses_size s. orig_ok s (ClauseAt i))"

lemma orig_ok_cong:
  "lits s' c = lits s c \<Longrightarrow> watch_a s' c = watch_a s c \<Longrightarrow> watch_b s' c = watch_b s c \<Longrightarrow>
   orig_ok s' c = orig_ok s c"
  by (simp add: orig_ok_def)

lemma orig_ok_no_trail:
  assumes "no_trail s' = no_trail s"
  shows "orig_ok s' c = orig_ok s c"
  by (simp add: orig_ok_def no_trail_fields[OF assms])

lemma originals_ok_no_trail:
  assumes "no_trail s' = no_trail s"
  shows "originals_ok s' = originals_ok s"
  by (simp add: originals_ok_def no_trail_fields[OF assms] orig_ok_no_trail[OF assms])

lemma orig_ok_unit_no_replacement:
  assumes "orig_ok s c" "asize (lits s c) = 1"
  shows "sat_unwatched_literal c s \<noteq> Inr (Some l, s')"
proof -
  from assms obtain m where m: "item (lits s c) = [m]"
    by (cases "item (lits s c)") (auto simp: orig_ok_def)
  with assms have "watch_a s c = Some m" by (simp add: orig_ok_def)
  with m assms show ?thesis
    by (simp add: sat_unwatched_literal_def sat_implied_literal_def)
qed

lemma orig_ok_watch_visit:
  assumes "watch_visit clit k s = Inr v" "orig_ok s c"
  shows "case v of Continue k' s' \<Rightarrow> orig_ok s' c | Return b s' \<Rightarrow> orig_ok s' c"
proof -
  let ?n = "watch_list s clit ! k"
  show ?thesis
  proof (cases "sat_subsumed_clause s ?n")
    case True
    with assms show ?thesis by (auto simp: watch_visit_def Let_def)
  next
    case False
    with assms(1) obtain l s1 where u: "sat_unwatched_literal ?n s = Inr (l, s1)"
      by (auto simp: watch_visit_def Let_def split: sum.splits)
    have f1: "lits s1 = lits s" "watch_a s1 = watch_a s" "watch_b s1 = watch_b s"
      by (simp_all add: no_trail_fields[OF no_trail_unwatched[OF u]])
    then have o1: "orig_ok s1 c" using assms(2) by (simp add: orig_ok_def)
    show ?thesis
    proof (cases "sat_subsumed_clause s1 ?n")
      case True
      with False u assms(1) o1 show ?thesis by (auto simp: watch_visit_def Let_def)
    next
      case ns: False
      show ?thesis
      proof (cases l)
        case (Some m)
        with u assms(2) orig_ok_unit_no_replacement[of s c m s1]
        have "?n = c \<Longrightarrow> asize (lits s c) \<noteq> 1" by auto
        then have ne: "?n = c \<Longrightarrow> asize (lits s c) \<noteq> 1" .
        from assms(1) False u ns Some f1
        obtain k' s4 where s4: "v = Continue k' s4" "lits s4 = lits s"
          "(watch_a s4 = (watch_a s)(?n := Some m) \<and> watch_b s4 = watch_b s) \<or>
           (watch_a s4 = watch_a s \<and> watch_b s4 = (watch_b s)(?n := Some m))"
          by (auto simp: watch_visit_def Let_def)
        from s4(2,3) assms(2) ne have "orig_ok s4 c"
          by (cases "?n = c") (auto simp: orig_ok_def)
        with s4(1) show ?thesis by simp
      next
        case None
        let ?o = "if Some clit = watch_a s1 ?n then watch_b s1 ?n else watch_a s1 ?n"
        have keep: "orig_ok s2 c" if "no_trail s2 = no_trail s1" for s2
          using o1 by (simp add: orig_ok_no_trail[OF that])
        have keepq: "orig_ok (s2\<lparr>propagate_literals := q\<rparr>) c"
          if "no_trail s2 = no_trail s1" for s2 q
          using keep[OF that] by (simp add: orig_ok_def)
        from assms(1) False u ns None
        have v: "Inr v =
          (case ?o of
             None \<Rightarrow> (case sat_contradiction (Some ?n) s1 of Inl e \<Rightarrow> Inl e
                       | Inr (b, s2) \<Rightarrow> Inr (Return b s2))
           | Some ol \<Rightarrow>
               if sat_instantiated_var s1 (lit_var s1 ol) then
                 (if sat_implied_literal s1 ol
                  then Inr (Continue (Suc k) (sat_subsume_clause ?n s1))
                  else (case sat_contradiction (Some ?n) s1 of Inl e \<Rightarrow> Inl e
                        | Inr (b, s2) \<Rightarrow> Inr (Return b s2)))
               else
                 (case set_Lit_Decision ol (Some ?n) s1 of
                    Inl e \<Rightarrow> Inl e
                  | Inr (False, s2) \<Rightarrow> Inr (Return False s2)
                  | Inr (True, s2) \<Rightarrow>
                      (case push (propagate_literals s2) ol of
                         Inl e \<Rightarrow> Inl e
                       | Inr q \<Rightarrow> Inr (Continue (Suc k) (s2\<lparr>propagate_literals := q\<rparr>)))))"
          by (simp add: watch_visit_def Let_def)
        show ?thesis
        proof (cases ?o)
          case None
          with v obtain b s2 where "sat_contradiction (Some ?n) s1 = Inr (b, s2)" "v = Return b s2"
            by (auto split: sum.splits)
          then show ?thesis using keep[OF no_trail_contradiction] by auto
        next
          case (Some ol)
          note ol = Some
          show ?thesis
          proof (cases "sat_instantiated_var s1 (lit_var s1 ol)")
            case True
            show ?thesis
            proof (cases "sat_implied_literal s1 ol")
              case True
              with v ol \<open>sat_instantiated_var s1 (lit_var s1 ol)\<close>
              have "v = Continue (Suc k) (sat_subsume_clause ?n s1)" by simp
              then show ?thesis using keep[of "sat_subsume_clause ?n s1"] by simp
            next
              case False
              with v ol True obtain b s2 where
                "sat_contradiction (Some ?n) s1 = Inr (b, s2)" "v = Return b s2"
                by (auto split: sum.splits)
              then show ?thesis using keep[OF no_trail_contradiction] by auto
            qed
          next
            case False
            with v ol obtain b s2 where d: "set_Lit_Decision ol (Some ?n) s1 = Inr (b, s2)"
              by (auto split: sum.splits)
            from keep[OF no_trail_set_Lit_Decision[OF d]] have k2: "orig_ok s2 c" .
            show ?thesis
            proof (cases b)
              case False
              with v ol d \<open>\<not> sat_instantiated_var s1 (lit_var s1 ol)\<close> have "v = Return False s2"
                by simp
              with k2 show ?thesis by simp
            next
              case True
              with v ol d \<open>\<not> sat_instantiated_var s1 (lit_var s1 ol)\<close> obtain q where
                "v = Continue (Suc k) (s2\<lparr>propagate_literals := q\<rparr>)"
                by (auto split: sum.splits)
              with keepq[OF no_trail_set_Lit_Decision[OF d]] show ?thesis by simp
            qed
          qed
        qed
      qed
    qed
  qed
qed

lemma originals_ok_prop_fixed_size:
  "prop_fixed s' = prop_fixed s \<Longrightarrow> clauses_size s' = clauses_size s"
  by (simp add: prop_fixed_def)

lemma orig_ok_watch_loop:
  assumes "watch_loop clit k s = Inr (b, s')" "orig_ok s c"
  shows "orig_ok s' c"
proof -
  have "orig_ok s c \<longrightarrow> orig_ok s' c"
    by (rule watch_loop_rel[where R="\<lambda>s s'. orig_ok s c \<longrightarrow> orig_ok s' c", OF _ _ _ assms(1)])
       (auto dest: orig_ok_watch_visit split: visit.splits)
  with assms(2) show ?thesis by simp
qed

lemma orig_ok_propagate:
  assumes "propagate_lit_decision lit s = Inr (b, s')" "orig_ok s c"
  shows "orig_ok s' c"
proof -
  from assms(1) obtain s1 where
    s1: "subsume_scan s (item (appears_in s lit)) (asize (appears_in s lit)) = Inr s1"
    and w: "watch_loop (lit_var s lit, lit_id (fold sat_subsume_clause (learned_list s1 lit) s1) lit < 0) 0
              (fold sat_subsume_clause (learned_list s1 lit) s1) = Inr (b, s')"
    by (auto simp: propagate_lit_decision_def Let_def split: sum.splits)
  have "orig_ok s1 c" using assms(2) orig_ok_no_trail[OF no_trail_subsume_scan[OF s1]] by simp
  then have "orig_ok (fold sat_subsume_clause (learned_list s1 lit) s1) c"
    using orig_ok_no_trail[OF no_trail_fold_subsume] by simp
  with w show ?thesis by (rule orig_ok_watch_loop)
qed

lemma orig_ok_unit_loop:
  assumes "unit_loop i s = Inr (b, s')" "orig_ok s c"
  shows "orig_ok s' c"
proof -
  have "orig_ok s c \<longrightarrow> orig_ok s' c"
  proof (rule unit_loop_rel[where R="\<lambda>s s'. orig_ok s c \<longrightarrow> orig_ok s' c", OF _ _ _ _ assms(1)])
    show "orig_ok s c \<longrightarrow> orig_ok (s\<lparr>propagate_literals := (propagate_literals s)\<lparr>item := []\<rparr>\<rparr>) c"
      for s by (simp add: orig_ok_def)
  qed (blast dest: orig_ok_propagate)+
  with assms(2) show ?thesis by simp
qed

lemma originals_ok_unit_resolution:
  assumes "sat_unit_resolution s = Inr (b, s')" "originals_ok s"
  shows "originals_ok s'"
  using assms prop_fixed_unit_resolution[OF assms(1), THEN originals_ok_prop_fixed_size]
  by (auto simp: originals_ok_def sat_unit_resolution_def dest: orig_ok_unit_loop)

lemma no_trail_undo_unit_resolution:
  "no_trail (sat_undo_unit_resolution s) = no_trail (s\<lparr>propagate_literals := (propagate_literals s)\<lparr>item := []\<rparr>\<rparr>)"
proof -
  let ?s2 = "undo_subsumed (subsumed_clauses (undo_trail s)) (undo_trail s)"
  have a: "no_trail ?s2 = no_trail s" by simp
  have b: "propagate_literals ?s2 = propagate_literals s" by (rule no_trail_fields(7)[OF a])
  have "no_trail (sat_undo_unit_resolution s)
        = (no_trail ?s2)\<lparr>propagate_literals := (propagate_literals ?s2)\<lparr>item := []\<rparr>\<rparr>"
    by (simp add: sat_undo_unit_resolution_def Let_def no_trail_def)
  also have "\<dots> = (no_trail s)\<lparr>propagate_literals := (propagate_literals s)\<lparr>item := []\<rparr>\<rparr>"
    by (simp only: a b)
  also have "\<dots> = no_trail (s\<lparr>propagate_literals := (propagate_literals s)\<lparr>item := []\<rparr>\<rparr>)"
    by (simp add: no_trail_def)
  finally show ?thesis .
qed

lemma originals_ok_undo_unit_resolution:
  "originals_ok (sat_undo_unit_resolution s) = originals_ok s"
proof -
  have "originals_ok (sat_undo_unit_resolution s)
        = originals_ok (s\<lparr>propagate_literals := (propagate_literals s)\<lparr>item := []\<rparr>\<rparr>)"
    by (rule originals_ok_no_trail[OF no_trail_undo_unit_resolution])
  then show ?thesis by (simp add: originals_ok_def orig_ok_def)
qed

lemma originals_ok_undo_decide:
  "originals_ok (sat_undo_decide_literal s) = originals_ok s"
  using originals_ok_undo_unit_resolution[of s]
  by (simp add: sat_undo_decide_literal_def Let_def originals_ok_def orig_ok_def)

lemma no_build_fields:
  assumes "no_build c s' = no_build c s"
  shows "clauses_size s' = clauses_size s" "level s' = level s"
    "decided_literals s' = decided_literals s" "propagate_literals s' = propagate_literals s"
    "subsumed_clauses s' = subsumed_clauses s" "d_level s' = d_level s" "d_value s' = d_value s"
    "d_implied_by s' = d_implied_by s" "watch_list s' = watch_list s"
    "learned_clauses s' = learned_clauses s" "lit_var s' = lit_var s" "lit_id s' = lit_id s"
    "var_id s' = var_id s" "appears_in s' = appears_in s" "learned_list s' = learned_list s"
    "c' \<noteq> c \<Longrightarrow> lits s' c' = lits s c'" "c' \<noteq> c \<Longrightarrow> watch_a s' c' = watch_a s c'"
    "c' \<noteq> c \<Longrightarrow> watch_b s' c' = watch_b s c'"
    "c' \<noteq> c \<Longrightarrow> is_subsumed s' c' = is_subsumed s c'"
    "c' \<noteq> c \<Longrightarrow> assertion_level s' c' = assertion_level s c'"
    "c' \<noteq> c \<Longrightarrow> c_id s' c' = c_id s c'"
  using assms[THEN arg_cong[where f=clauses_size]] assms[THEN arg_cong[where f=level]]
    assms[THEN arg_cong[where f=decided_literals]] assms[THEN arg_cong[where f=propagate_literals]]
    assms[THEN arg_cong[where f=subsumed_clauses]] assms[THEN arg_cong[where f=d_level]]
    assms[THEN arg_cong[where f=d_value]] assms[THEN arg_cong[where f=d_implied_by]]
    assms[THEN arg_cong[where f=watch_list]] assms[THEN arg_cong[where f=learned_clauses]]
    assms[THEN arg_cong[where f=lit_var]] assms[THEN arg_cong[where f=lit_id]]
    assms[THEN arg_cong[where f=var_id]] assms[THEN arg_cong[where f=appears_in]]
    assms[THEN arg_cong[where f=learned_list]]
    assms[THEN arg_cong[where f="\<lambda>s. lits s c'"]] assms[THEN arg_cong[where f="\<lambda>s. watch_a s c'"]]
    assms[THEN arg_cong[where f="\<lambda>s. watch_b s c'"]]
    assms[THEN arg_cong[where f="\<lambda>s. is_subsumed s c'"]]
    assms[THEN arg_cong[where f="\<lambda>s. assertion_level s c'"]]
    assms[THEN arg_cong[where f="\<lambda>s. c_id s c'"]]
  by (simp_all add: no_build_def)

lemma originals_ok_build:
  assumes "sat_build_asserting_clause s = Inr (c, s')"
  shows "originals_ok s' = originals_ok s"
proof -
  note f = sat_build_asserting_clause_frame[OF assms]
  have "orig_ok s' (ClauseAt i) = orig_ok s (ClauseAt i)" for i
    using f(1) by (intro orig_ok_cong no_build_fields[OF f(3)]) simp_all
  then show ?thesis by (simp add: originals_ok_def no_build_fields(1)[OF f(3)])
qed

subsection \<open>The states the interface can produce\<close>

text \<open>A state is reachable when it comes from \<^verbatim>\<open>sat_state_new\<close> by calls of the public
  operations that return. \<^verbatim>\<open>sat_assert_clause\<close> is called, as its comment requires, on a
  clause that \<^verbatim>\<open>sat_decide_literal\<close> or \<^verbatim>\<open>sat_assert_clause\<close> returned: an allocated
  clause.\<close>

inductive reachable :: "sat_state \<Rightarrow> bool" where
  reach_new: "sat_state_new mem n cls = Inr s \<Longrightarrow> reachable s"
| reach_unit: "reachable s \<Longrightarrow> sat_unit_resolution s = Inr (b, s') \<Longrightarrow> reachable s'"
| reach_undo_unit: "reachable s \<Longrightarrow> reachable (sat_undo_unit_resolution s)"
| reach_decide: "reachable s \<Longrightarrow> sat_decide_literal lit s = Inr (r, s') \<Longrightarrow> reachable s'"
| reach_undo_decide: "reachable s \<Longrightarrow> reachable (sat_undo_decide_literal s)"
| reach_assert: "reachable s \<Longrightarrow> sat_assert_clause (Malloc k) s = Inr (r, s') \<Longrightarrow> reachable s'"

definition false_clause_ok :: "sat_state \<Rightarrow> bool" where
  "false_clause_ok s =
     (assertion_level s FalseClause = 0 \<and> lits s FalseClause = \<lparr>item = [], asize = 0\<rparr>)"

definition watch_core where
  "watch_core s = (lits s, watch_a s, watch_b s, clauses_size s, assertion_level s)"

lemma watch_core_no_trail:
  assumes "no_trail s' = no_trail s"
  shows "watch_core s' = watch_core s"
  by (simp add: watch_core_def no_trail_fields[OF assms])

lemma originals_ok_watch_core: "watch_core s' = watch_core s \<Longrightarrow> originals_ok s' = originals_ok s"
  by (simp add: watch_core_def originals_ok_def orig_ok_def)

lemma false_clause_ok_watch_core:
  "watch_core s' = watch_core s \<Longrightarrow> false_clause_ok s' = false_clause_ok s"
  by (simp add: watch_core_def false_clause_ok_def)

lemma false_clause_ok_prop_fixed:
  "prop_fixed s' = prop_fixed s \<Longrightarrow> false_clause_ok s' = false_clause_ok s"
  by (simp add: prop_fixed_def false_clause_ok_def)

lemma false_clause_ok_build:
  assumes "sat_build_asserting_clause s = Inr (c, s')"
  shows "false_clause_ok s' = false_clause_ok s"
proof -
  note f = sat_build_asserting_clause_frame[OF assms]
  from f(1) have "FalseClause \<noteq> c" by simp
  then show ?thesis
    by (simp add: false_clause_ok_def no_build_fields(16,20)[OF f(3)])
qed

lemma read_tokens_core:
  "read_tokens toks s = Inr s' \<Longrightarrow> watch_core s' = watch_core s \<and> watch_list s' = watch_list s"
  by (induction toks s rule: read_tokens.induct)
     (auto simp: Let_def watch_core_def split: if_splits sum.splits)

lemma read_clause_core:
  assumes "read_clause c toks s = Inr s1"
  shows "\<exists>L. lits s1 = (lits s)(c := \<lparr>item = L, asize = length L\<rparr>)"
    "watch_a s1 = (watch_a s)(c := None)" "watch_b s1 = (watch_b s)(c := None)"
    "clauses_size s1 = clauses_size s" "assertion_level s1 = assertion_level s"
proof -
  from assms obtain s0 where t: "read_tokens toks s = Inr s0"
    by (auto simp: read_clause_def split: sum.splits)
  from read_tokens_core[OF t] have c: "lits s0 = lits s" "watch_a s0 = watch_a s"
    "watch_b s0 = watch_b s" "clauses_size s0 = clauses_size s"
    "assertion_level s0 = assertion_level s"
    by (simp_all add: watch_core_def)
  from assms t have s1: "s1 = (let s2 = s0\<lparr>clauses_count := Suc (clauses_count s0)\<rparr>;
               s3 = init_Clause c (clauses_count s2) (length (item (decided_literals s2))) s2;
               s4 = s3\<lparr>lits := (lits s3)(c := (lits s3 c)\<lparr>item := item (decided_literals s3)\<rparr>)\<rparr>
           in s4\<lparr>decided_literals := (decided_literals s4)\<lparr>item := []\<rparr>\<rparr>)"
    by (auto simp: read_clause_def Let_def)
  show "\<exists>L. lits s1 = (lits s)(c := \<lparr>item = L, asize = length L\<rparr>)"
    by (rule exI[of _ "item (decided_literals s0)"])
       (simp add: s1 Let_def init_Clause_def c fun_eq_iff)
  show "watch_a s1 = (watch_a s)(c := None)" "watch_b s1 = (watch_b s)(c := None)"
    "clauses_size s1 = clauses_size s" "assertion_level s1 = assertion_level s"
    by (simp_all add: s1 Let_def init_Clause_def c)
qed


lemma read_clauses_ok:
  "read_clauses i cls s = Inr s' \<Longrightarrow>
     clauses_size s' = clauses_size s \<and> false_clause_ok s' = false_clause_ok s \<and>
     (\<forall>j < i. orig_ok s' (ClauseAt j) = orig_ok s (ClauseAt j)) \<and>
     (\<forall>j. i \<le> j \<and> j < i + length cls \<longrightarrow> orig_ok s' (ClauseAt j))"
proof (induction cls arbitrary: i s)
  case Nil
  then show ?case by auto
next
  case (Cons toks rest)
  let ?c = "ClauseAt i"
  from Cons.prems obtain s1 where r: "read_clause ?c toks s = Inr s1"
    by (auto simp: Let_def split: sum.splits)
  from read_clause_core[OF r] obtain L where
    c: "lits s1 = (lits s)(?c := \<lparr>item = L, asize = length L\<rparr>)"
    "watch_a s1 = (watch_a s)(?c := None)" "watch_b s1 = (watch_b s)(?c := None)"
    "clauses_size s1 = clauses_size s" "assertion_level s1 = assertion_level s"
    by blast
  from Cons.prems r obtain wa where wa: "read_at (lits s1 ?c) 0 = Inr wa"
    by (auto simp: Let_def split: sum.splits)
  with c(1) have L: "L \<noteq> []" "wa = L ! 0" by (auto simp: read_at_def split: if_splits)
  let ?s3 = "s1\<lparr>watch_a := (watch_a s1)(?c := Some wa),
                  watch_list := (watch_list s1)(wa := ?c # watch_list s1 wa)\<rparr>"
  have "\<exists>s5. read_clauses (Suc i) rest s5 = Inr s' \<and>
      lits s5 = lits s1 \<and> clauses_size s5 = clauses_size s1 \<and>
      assertion_level s5 = assertion_level s1 \<and>
      watch_a s5 = (watch_a s1)(?c := Some wa) \<and>
      ((length L = 1 \<and> watch_b s5 = (watch_b s1)(?c := None)) \<or>
       (length L \<noteq> 1 \<and> (\<exists>wb. watch_b s5 = (watch_b s1)(?c := Some wb))))"
  proof (cases "length L = 1")
    case True
    with Cons.prems r wa c(1)
    have "read_clauses (Suc i) rest (?s3\<lparr>watch_b := (watch_b ?s3)(?c := None)\<rparr>) = Inr s'"
      by (simp add: Let_def)
    then have rec3: "read_clauses (Suc i) rest (?s3\<lparr>watch_b := (watch_b ?s3)(?c := None)\<rparr>) = Inr s'" .
    have p: "lits (?s3\<lparr>watch_b := (watch_b ?s3)(?c := None)\<rparr>) = lits s1"
      "clauses_size (?s3\<lparr>watch_b := (watch_b ?s3)(?c := None)\<rparr>) = clauses_size s1"
      "assertion_level (?s3\<lparr>watch_b := (watch_b ?s3)(?c := None)\<rparr>) = assertion_level s1"
      "watch_a (?s3\<lparr>watch_b := (watch_b ?s3)(?c := None)\<rparr>) = (watch_a s1)(?c := Some wa)"
      "watch_b (?s3\<lparr>watch_b := (watch_b ?s3)(?c := None)\<rparr>) = (watch_b s1)(?c := None)"
      by simp_all
    from rec3 p True show ?thesis by blast
  next
    case False
    with Cons.prems r wa c(1) obtain wb where wb: "read_at (lits ?s3 ?c) 1 = Inr wb"
      by (auto simp: Let_def split: sum.splits)
    let ?s5 = "?s3\<lparr>watch_b := (watch_b ?s3)(?c := Some wb),
                     watch_list := (watch_list ?s3)(wb := ?c # watch_list ?s3 wb)\<rparr>"
    from False Cons.prems r wa c(1) wb
    have "read_clauses (Suc i) rest ?s5 = Inr s'"
      by (simp add: Let_def)
    then have rec5: "read_clauses (Suc i) rest ?s5 = Inr s'" .
    have p: "lits ?s5 = lits s1" "clauses_size ?s5 = clauses_size s1"
      "assertion_level ?s5 = assertion_level s1"
      "watch_a ?s5 = (watch_a s1)(?c := Some wa)"
      "watch_b ?s5 = (watch_b s1)(?c := Some wb)"
      by simp_all
    from rec5 p False show ?thesis by blast
  qed
  then obtain s5 where
    rec: "read_clauses (Suc i) rest s5 = Inr s'"
    and s5: "lits s5 = lits s1" "clauses_size s5 = clauses_size s1"
      "assertion_level s5 = assertion_level s1"
      "watch_a s5 = (watch_a s1)(?c := Some wa)"
      "(length L = 1 \<and> watch_b s5 = (watch_b s1)(?c := None)) \<or>
       (length L \<noteq> 1 \<and> (\<exists>wb. watch_b s5 = (watch_b s1)(?c := Some wb)))"
    by blast
  from Cons.IH[OF rec] have ih:
    "clauses_size s' = clauses_size s5" "false_clause_ok s' = false_clause_ok s5"
    "\<forall>j < Suc i. orig_ok s' (ClauseAt j) = orig_ok s5 (ClauseAt j)"
    "\<forall>j. Suc i \<le> j \<and> j < Suc i + length rest \<longrightarrow> orig_ok s' (ClauseAt j)"
    by blast+
  have ok_i: "orig_ok s5 ?c"
    using s5 c L by (auto simp: orig_ok_def Suc_le_eq)
  have old: "orig_ok s5 (ClauseAt j) = orig_ok s (ClauseAt j)" if "j < i" for j
    using that s5 c by (auto simp: orig_ok_def)
  have fc: "false_clause_ok s5 = false_clause_ok s"
    using s5 c by (simp add: false_clause_ok_def)
  show ?case
  proof (intro conjI allI impI)
    show "clauses_size s' = clauses_size s" using ih(1) s5(2) c(4) by simp
    show "false_clause_ok s' = false_clause_ok s" using ih(2) fc by simp
    show "orig_ok s' (ClauseAt j) = orig_ok s (ClauseAt j)" if "j < i" for j
      using ih(3) old[OF that] that by simp
    show "orig_ok s' (ClauseAt j)" if "i \<le> j \<and> j < i + length (toks # rest)" for j
    proof (cases "j = i")
      case True
      with ih(3) ok_i show ?thesis by simp
    next
      case False
      with that ih(4) show ?thesis by simp
    qed
  qed
qed



lemma watch_core_init_Var [simp]: "watch_core (init_Var v n s) = watch_core s"
  by (simp add: Let_def init_Var_def init_Lit_def watch_core_def)

lemma watch_core_INIT_appears_in [simp]: "watch_core (INIT_appears_in l s) = watch_core s"
  by (simp add: INIT_appears_in_def watch_core_def)

lemma watch_core_vars_count [simp]: "watch_core (s\<lparr>vars_count := x\<rparr>) = watch_core s"
  by (simp add: watch_core_def)

lemma init_vars_core: "watch_core (init_vars i k s) = watch_core s"
  by (induction i k s rule: init_vars.induct) (simp_all add: Let_def)

lemma init_appears_core: "watch_core (init_appears i k s) = watch_core s"
  by (induction i k s rule: init_appears.induct) simp_all

lemma appears_fill_core:
  "appears_fill c s ls k = Inr s' \<Longrightarrow> watch_core s' = watch_core s"
  by (induction c s ls k rule: appears_fill.induct)
     (auto simp: watch_core_def split: sum.splits)

lemma root_units_core:
  "root_units passed i k s = Inr s' \<Longrightarrow> watch_core s' = watch_core s"
proof (induction passed i k s rule: root_units.induct)
  case (1 passed i s)
  then show ?case by simp
next
  case (2 passed i k s)
  let ?c = "ClauseAt i"
  show ?case
  proof (cases "length (item (lits s ?c)) > 1 \<or> \<not> passed")
    case True
    with "2.prems" obtain s1 where
      a: "appears_fill ?c s (item (lits s ?c)) (asize (lits s ?c)) = Inr s1"
      and r: "root_units passed (Suc i) k s1 = Inr s'"
      by (auto simp: Let_def split: sum.splits)
    from "2.IH"(1)[OF refl True a r] appears_fill_core[OF a] show ?thesis by simp
  next
    case False
    with "2.prems" obtain wa a p s2 q where
      w: "watch_a s ?c = Some wa" and a: "push (appears_in s wa) ?c = Inr a"
      and d: "set_Lit_Decision wa (Some ?c) (s\<lparr>appears_in := (appears_in s)(wa := a)\<rparr>) = Inr (p, s2)"
      and q: "push (propagate_literals
                (if \<not> p then s2\<lparr>decided_literals := (decided_literals s2)
                                    \<lparr>item := butlast (item (decided_literals s2))\<rparr>,
                                  is_subsumed := (is_subsumed s2)(?c := False)\<rparr>
                 else s2)) wa = Inr q"
      and r: "root_units p (Suc i) k
                ((if \<not> p then s2\<lparr>decided_literals := (decided_literals s2)
                                    \<lparr>item := butlast (item (decided_literals s2))\<rparr>,
                                  is_subsumed := (is_subsumed s2)(?c := False)\<rparr>
                  else s2)\<lparr>propagate_literals := q\<rparr>) = Inr s'"
      by (auto simp: Let_def split: sum.splits option.splits prod.splits)
    from "2.IH"(2)[OF refl False w a refl d refl refl q r]
    have "watch_core s' = watch_core ((if \<not> p then s2\<lparr>decided_literals := (decided_literals s2)
                                    \<lparr>item := butlast (item (decided_literals s2))\<rparr>,
                                  is_subsumed := (is_subsumed s2)(?c := False)\<rparr>
                  else s2)\<lparr>propagate_literals := q\<rparr>)" .
    also have "\<dots> = watch_core s2" by (simp add: watch_core_def)
    also have "\<dots> = watch_core (s\<lparr>appears_in := (appears_in s)(wa := a)\<rparr>)"
      by (rule watch_core_no_trail[OF no_trail_set_Lit_Decision[OF d]])
    also have "\<dots> = watch_core s" by (simp add: watch_core_def)
    finally show ?thesis .
  qed
qed

lemma sat_state_new_ok:
  assumes "sat_state_new mem n cls = Inr s"
  shows "originals_ok s" "false_clause_ok s"
proof -
  let ?s4 = "(init_Clause FalseClause 0 0 (init_Lit (Contradiction, pos) 0 Contradiction (mem\<lparr>level := 1\<rparr>)))
              \<lparr>assertion_level := (assertion_level (init_Clause FalseClause 0 0 (init_Lit (Contradiction, pos) 0 Contradiction (mem\<lparr>level := 1\<rparr>))))(FalseClause := 0)\<rparr>"
  from assms obtain s5 where r: "read_sat_cnf n cls ?s4 = Inr s5"
    and s: "s = s5\<lparr>marks := replicate (vars_size s5 + 1) False\<rparr>"
    by (auto simp: sat_state_new_def Let_def split: sum.splits)
  have f4: "false_clause_ok ?s4" by (simp add: false_clause_ok_def init_Clause_def)
  let ?s5 = "(init_vars 0 n (?s4\<lparr>vars_size := n, clauses_size := length cls, vars_count := 0\<rparr>))
        \<lparr>learned_clauses := [], subsumed_clauses := [],
          propagate_literals := \<lparr>item = [], asize = n\<rparr>,
          decided_literals := \<lparr>item = [], asize = n + 1\<rparr>, clauses_count := 0\<rparr>"
  have vs: "vars_size (init_vars i k t) = vars_size t" for i k t
    by (induction i k t rule: init_vars.induct)
       (simp_all add: Let_def init_Var_def init_Lit_def pos_def neg_def)
  from r obtain s6 where rc: "read_clauses 0 cls ?s5 = Inr s6"
    and ru: "root_units True 0 (clauses_size s6) (init_appears 0 (vars_size s6) s6) = Inr s5"
    by (auto simp: read_sat_cnf_def Let_def vs split: sum.splits)
  have c5: "watch_core ?s5 = watch_core (?s4\<lparr>clauses_size := length cls\<rparr>)"
    using init_vars_core[of 0 n "?s4\<lparr>vars_size := n, clauses_size := length cls, vars_count := 0\<rparr>"]
    by (simp add: watch_core_def)
  then have f5: "false_clause_ok ?s5" "clauses_size ?s5 = length cls"
    using f4 by (simp_all add: watch_core_def false_clause_ok_def)
  from read_clauses_ok[OF rc] f5 have o6: "originals_ok s6" "false_clause_ok s6"
    by (simp_all add: originals_ok_def)
  have "watch_core s5 = watch_core s6"
    using root_units_core[OF ru] init_appears_core[of 0 "vars_size s6" s6] by simp
  moreover have "watch_core s = watch_core s5" by (simp add: s watch_core_def)
  ultimately have wc: "watch_core s = watch_core s6" by simp
  from o6 show "originals_ok s" "false_clause_ok s"
    by (simp_all add: originals_ok_watch_core[OF wc] false_clause_ok_watch_core[OF wc])
qed

definition api_inv :: "sat_state \<Rightarrow> bool" where
  "api_inv s = (originals_ok s \<and> false_clause_ok s)"

lemma api_inv_watch_core:
  assumes "watch_core s' = watch_core s"
  shows "api_inv s' = api_inv s"
  by (simp add: api_inv_def originals_ok_watch_core[OF assms] false_clause_ok_watch_core[OF assms])

lemma api_inv_unit_resolution:
  assumes "sat_unit_resolution s = Inr (b, s')" "api_inv s"
  shows "api_inv s'"
  using assms originals_ok_unit_resolution[OF assms(1)]
    false_clause_ok_prop_fixed[OF prop_fixed_unit_resolution[OF assms(1)]]
  by (simp add: api_inv_def)

lemma api_inv_build:
  assumes "sat_build_asserting_clause s = Inr (c, s')"
  shows "api_inv s' = api_inv s"
  by (simp add: api_inv_def originals_ok_build[OF assms] false_clause_ok_build[OF assms])

lemma api_inv_undo_unit: "api_inv (sat_undo_unit_resolution s) = api_inv s"
  by (simp add: api_inv_def originals_ok_undo_unit_resolution
        false_clause_ok_prop_fixed[OF prop_fixed_undo_unit_resolution])

lemma api_inv_undo_decide: "api_inv (sat_undo_decide_literal s) = api_inv s"
proof -
  have "watch_core (sat_undo_decide_literal s) = watch_core (sat_undo_unit_resolution s)"
    by (simp add: sat_undo_decide_literal_def Let_def watch_core_def)
  from api_inv_watch_core[OF this] show ?thesis by (simp add: api_inv_undo_unit)
qed

lemma api_inv_decide:
  assumes "sat_decide_literal lit s = Inr (r, s')" "api_inv s"
  shows "api_inv s'"
proof -
  let ?s2 = "s\<lparr>level := nat ((int (level s) + 1) mod 2 ^ 64), subsumed_clauses := None # subsumed_clauses s\<rparr>"
  have i2: "api_inv ?s2"
    using assms(2) api_inv_watch_core[of ?s2 s] by (simp add: watch_core_def)
  from assms(1) obtain p s3 where d: "set_Lit_Decision lit None ?s2 = Inr (p, s3)"
    by (auto simp: sat_decide_literal_def Let_def split: sum.splits)
  have i3: "api_inv s3"
    using i2 api_inv_watch_core[OF watch_core_no_trail[OF no_trail_set_Lit_Decision[OF d]]]
    by simp
  show ?thesis
  proof (cases p)
    case False
    with assms(1) d obtain c where "sat_build_asserting_clause s3 = Inr (c, s')"
      by (auto simp: sat_decide_literal_def Let_def split: sum.splits prod.splits)
    from api_inv_build[OF this] i3 show ?thesis by simp
  next
    case True
    with assms(1) d obtain q p' s4 where
      q: "push (propagate_literals s3) lit = Inr q"
      and u: "sat_unit_resolution (s3\<lparr>propagate_literals := q\<rparr>) = Inr (p', s4)"
      by (auto simp: sat_decide_literal_def Let_def split: sum.splits prod.splits)
    have "api_inv (s3\<lparr>propagate_literals := q\<rparr>)"
      using i3 api_inv_watch_core[of "s3\<lparr>propagate_literals := q\<rparr>" s3]
      by (simp add: watch_core_def)
    from api_inv_unit_resolution[OF u this] have i4: "api_inv s4" .
    show ?thesis
    proof (cases p')
      case True
      with assms(1) d q u \<open>p\<close> have "s' = s4"
        by (auto simp: sat_decide_literal_def Let_def)
      with i4 show ?thesis by simp
    next
      case False
      with assms(1) d q u \<open>p\<close> obtain c where "sat_build_asserting_clause s4 = Inr (c, s')"
        by (auto simp: sat_decide_literal_def Let_def split: sum.splits prod.splits)
      from api_inv_build[OF this] i4 show ?thesis by simp
    qed
  qed
qed

lemma learned_scan_core:
  "learned_scan c s ls k = Inr s' \<Longrightarrow> watch_core s' = watch_core s"
  by (induction c s ls k rule: learned_scan.induct) (auto simp: watch_core_def)

lemma api_inv_malloc_watch:
  "api_inv (s\<lparr>watch_a := (watch_a s)(Malloc k := x), watch_b := (watch_b s)(Malloc k := y)\<rparr>)
   = api_inv s"
  by (simp add: api_inv_def originals_ok_def orig_ok_def false_clause_ok_def)

definition attach_watch_list :: "cref \<Rightarrow> lref \<Rightarrow> lref \<Rightarrow> sat_state \<Rightarrow> lref \<Rightarrow> cref list" where
  "attach_watch_list c wa wb s =
     ((watch_list s)(wa := c # watch_list s wa))
       (wb := c # ((watch_list s)(wa := c # watch_list s wa)) wb)"

lemma assert_attach_cases:
  assumes "assert_attach c s = Inr (b, s')"
  obtains s2 wa wb p s4 where
    "learned_scan c (s\<lparr>learned_clauses := c # learned_clauses s\<rparr>) (item (lits s c))
       (asize (lits s c)) = Inr s2"
    "read_at (lits s2 c) 0 = Inr wa" "asize (lits s2 c) \<noteq> 0"
    "read_at (lits s2 c) (asize (lits s2 c) - 1) = Inr wb"
    "set_Lit_Decision wa (Some c)
       (s2\<lparr>watch_a := (watch_a s2)(c := Some wa), watch_b := (watch_b s2)(c := Some wb)\<rparr>)
     = Inr (p, s4)"
    "(\<not> p \<and> \<not> b \<and> s' = s4) \<or>
     (p \<and> (\<exists>q. push (propagate_literals s4) wa = Inr q \<and>
            sat_unit_resolution
              (s4\<lparr>propagate_literals := q, watch_list := attach_watch_list c wa wb s4\<rparr>)
            = Inr (b, s')))"
proof -
  let ?s1 = "s\<lparr>learned_clauses := c # learned_clauses s\<rparr>"
  from assms obtain s2 where
    l: "learned_scan c ?s1 (item (lits s c)) (asize (lits s c)) = Inr s2"
    by (auto simp: assert_attach_def Let_def split: sum.splits)
  from assms l obtain wa where wa: "read_at (lits s2 c) 0 = Inr wa"
    by (auto simp: assert_attach_def Let_def split: sum.splits)
  from assms l wa have nz: "asize (lits s2 c) \<noteq> 0"
    by (auto simp: assert_attach_def Let_def split: sum.splits if_splits)
  from assms l wa nz obtain wb where wb: "read_at (lits s2 c) (asize (lits s2 c) - 1) = Inr wb"
    by (auto simp: assert_attach_def Let_def split: sum.splits if_splits)
  let ?s3 = "s2\<lparr>watch_a := (watch_a s2)(c := Some wa), watch_b := (watch_b s2)(c := Some wb)\<rparr>"
  from assms l wa nz wb obtain p s4 where d: "set_Lit_Decision wa (Some c) ?s3 = Inr (p, s4)"
    by (auto simp: assert_attach_def Let_def split: sum.splits if_splits)
  from assms l wa nz wb d
  have "(\<not> p \<and> \<not> b \<and> s' = s4) \<or>
     (p \<and> (\<exists>q. push (propagate_literals s4) wa = Inr q \<and>
            sat_unit_resolution
              (s4\<lparr>propagate_literals := q, watch_list := attach_watch_list c wa wb s4\<rparr>)
            = Inr (b, s')))"
    by (cases p) (auto simp: assert_attach_def Let_def attach_watch_list_def split: sum.splits)
  with l wa nz wb d show ?thesis by (rule that)
qed

lemma api_inv_assert_attach:
  assumes "assert_attach (Malloc k) s = Inr (b, s')" "api_inv s"
  shows "api_inv s'"
proof -
  let ?c = "Malloc k"
  let ?s1 = "s\<lparr>learned_clauses := ?c # learned_clauses s\<rparr>"
  from assms(1) show ?thesis
  proof (rule assert_attach_cases)
    fix s2 wa wb p s4
    assume l: "learned_scan ?c ?s1 (item (lits s ?c)) (asize (lits s ?c)) = Inr s2"
      and d: "set_Lit_Decision wa (Some ?c)
              (s2\<lparr>watch_a := (watch_a s2)(?c := Some wa), watch_b := (watch_b s2)(?c := Some wb)\<rparr>)
            = Inr (p, s4)"
      and fin: "(\<not> p \<and> \<not> b \<and> s' = s4) \<or>
         (p \<and> (\<exists>q. push (propagate_literals s4) wa = Inr q \<and>
            sat_unit_resolution
              (s4\<lparr>propagate_literals := q, watch_list := attach_watch_list ?c wa wb s4\<rparr>)
            = Inr (b, s')))"
    have "api_inv ?s1" using assms(2) api_inv_watch_core[of ?s1 s] by (simp add: watch_core_def)
    then have "api_inv s2" using api_inv_watch_core[OF learned_scan_core[OF l]] by simp
    then have "api_inv (s2\<lparr>watch_a := (watch_a s2)(?c := Some wa), watch_b := (watch_b s2)(?c := Some wb)\<rparr>)"
      by (simp add: api_inv_malloc_watch)
    then have i4: "api_inv s4"
      using api_inv_watch_core[OF watch_core_no_trail[OF no_trail_set_Lit_Decision[OF d]]] by simp
    from fin show "api_inv s'"
    proof
      assume "\<not> p \<and> \<not> b \<and> s' = s4" with i4 show ?thesis by simp
    next
      assume "p \<and> (\<exists>q. push (propagate_literals s4) wa = Inr q \<and>
            sat_unit_resolution
              (s4\<lparr>propagate_literals := q, watch_list := attach_watch_list ?c wa wb s4\<rparr>)
            = Inr (b, s'))"
      then obtain q where u: "sat_unit_resolution
              (s4\<lparr>propagate_literals := q, watch_list := attach_watch_list ?c wa wb s4\<rparr>)
            = Inr (b, s')" by blast
      have "api_inv (s4\<lparr>propagate_literals := q, watch_list := attach_watch_list ?c wa wb s4\<rparr>)"
        using i4 api_inv_watch_core[of "s4\<lparr>propagate_literals := q, watch_list := attach_watch_list ?c wa wb s4\<rparr>" s4]
        by (simp add: watch_core_def)
      from api_inv_unit_resolution[OF u this] show ?thesis .
    qed
  qed
qed

lemma api_inv_assert:
  assumes "sat_assert_clause (Malloc k) s = Inr (r, s')" "api_inv s"
  shows "api_inv s'"
proof -
  from assms(1) obtain b s1 where a: "assert_attach (Malloc k) s = Inr (b, s1)"
    by (auto simp: sat_assert_clause_def split: sum.splits)
  note i1 = api_inv_assert_attach[OF a assms(2)]
  from assms(1) a have "s' = s1 \<or> (\<exists>c. sat_build_asserting_clause s1 = Inr (c, s'))"
    by (auto simp: sat_assert_clause_def split: sum.splits prod.splits if_splits bool.splits)
  with i1 show ?thesis by (auto simp: api_inv_build)
qed

lemma reachable_api_inv: "reachable s \<Longrightarrow> api_inv s"
proof (induction rule: reachable.induct)
  case (reach_new mem n cls s)
  then show ?case by (simp add: api_inv_def sat_state_new_ok)
next
  case (reach_unit s b s')
  then show ?case by (auto intro: api_inv_unit_resolution)
next
  case (reach_undo_unit s)
  then show ?case by (simp add: api_inv_undo_unit)
next
  case (reach_decide s lit r s')
  then show ?case by (auto intro: api_inv_decide)
next
  case (reach_undo_decide s)
  then show ?case by (simp add: api_inv_undo_decide)
next
  case (reach_assert s k r s')
  then show ?case by (auto intro: api_inv_assert)
qed

subsection \<open>A watch never goes back to \<^verbatim>\<open>NULL\<close>\<close>

definition visit_state :: "visit \<Rightarrow> sat_state" where
  "visit_state v = (case v of Continue k s \<Rightarrow> s | Return b s \<Rightarrow> s)"

definition wb_kept :: "sat_state \<Rightarrow> sat_state \<Rightarrow> bool" where
  "wb_kept s s' = (\<forall>c. watch_b s c \<noteq> None \<longrightarrow> watch_b s' c \<noteq> None)"

lemma wb_kept_refl [simp]: "wb_kept s s"
  by (simp add: wb_kept_def)

lemma wb_kept_trans: "wb_kept a b \<Longrightarrow> wb_kept b c \<Longrightarrow> wb_kept a c"
  by (simp add: wb_kept_def)

lemma wb_kept_eq: "watch_b s' = watch_b s \<Longrightarrow> wb_kept s s'"
  by (simp add: wb_kept_def)

lemma wb_kept_watch_visit:
  assumes "watch_visit clit k s = Inr v"
  shows "wb_kept s (visit_state v)"
proof -
  let ?n = "watch_list s clit ! k"
  show ?thesis
  proof (cases "sat_subsumed_clause s ?n")
    case True
    with assms show ?thesis by (auto simp: watch_visit_def Let_def visit_state_def)
  next
    case False
    with assms obtain l s1 where u: "sat_unwatched_literal ?n s = Inr (l, s1)"
      by (auto simp: watch_visit_def Let_def split: sum.splits)
    have f1: "watch_a s1 = watch_a s" "watch_b s1 = watch_b s"
      by (simp_all add: no_trail_fields[OF no_trail_unwatched[OF u]])
    show ?thesis
    proof (cases "sat_subsumed_clause s1 ?n")
      case True
      with False u assms f1 show ?thesis
        by (auto simp: watch_visit_def Let_def visit_state_def intro: wb_kept_eq)
    next
      case ns: False
      show ?thesis
      proof (cases l)
        case (Some m)
        from assms False u ns Some f1
        obtain k' s4 where s4: "v = Continue k' s4"
          "watch_b s4 = watch_b s \<or> watch_b s4 = (watch_b s)(?n := Some m)"
          by (auto simp: watch_visit_def Let_def)
        from s4(2) have "wb_kept s s4" by (auto simp: wb_kept_def)
        with s4(1) show ?thesis by (simp add: visit_state_def)
      next
        case None
        let ?o = "if Some clit = watch_a s1 ?n then watch_b s1 ?n else watch_a s1 ?n"
        have keep: "wb_kept s s2" if "no_trail s2 = no_trail s1" for s2
          using f1 by (simp add: wb_kept_def no_trail_fields[OF that])
        have keepq: "wb_kept s (s2\<lparr>propagate_literals := q\<rparr>)"
          if "no_trail s2 = no_trail s1" for s2 q
          using keep[OF that] by (simp add: wb_kept_def)
        from assms False u ns None
        have v: "Inr v =
          (case ?o of
             None \<Rightarrow> (case sat_contradiction (Some ?n) s1 of Inl e \<Rightarrow> Inl e
                       | Inr (b, s2) \<Rightarrow> Inr (Return b s2))
           | Some ol \<Rightarrow>
               if sat_instantiated_var s1 (lit_var s1 ol) then
                 (if sat_implied_literal s1 ol
                  then Inr (Continue (Suc k) (sat_subsume_clause ?n s1))
                  else (case sat_contradiction (Some ?n) s1 of Inl e \<Rightarrow> Inl e
                        | Inr (b, s2) \<Rightarrow> Inr (Return b s2)))
               else
                 (case set_Lit_Decision ol (Some ?n) s1 of
                    Inl e \<Rightarrow> Inl e
                  | Inr (False, s2) \<Rightarrow> Inr (Return False s2)
                  | Inr (True, s2) \<Rightarrow>
                      (case push (propagate_literals s2) ol of
                         Inl e \<Rightarrow> Inl e
                       | Inr q \<Rightarrow> Inr (Continue (Suc k) (s2\<lparr>propagate_literals := q\<rparr>)))))"
          by (simp add: watch_visit_def Let_def)
        show ?thesis
        proof (cases ?o)
          case None
          with v obtain b s2 where "sat_contradiction (Some ?n) s1 = Inr (b, s2)" "v = Return b s2"
            by (auto split: sum.splits)
          then show ?thesis using keep[OF no_trail_contradiction] by (auto simp: visit_state_def)
        next
          case (Some ol)
          note ol = Some
          show ?thesis
          proof (cases "sat_instantiated_var s1 (lit_var s1 ol)")
            case True
            show ?thesis
            proof (cases "sat_implied_literal s1 ol")
              case True
              with v ol \<open>sat_instantiated_var s1 (lit_var s1 ol)\<close>
              have "v = Continue (Suc k) (sat_subsume_clause ?n s1)" by simp
              then show ?thesis using keep[of "sat_subsume_clause ?n s1"]
                by (simp add: visit_state_def)
            next
              case False
              with v ol True obtain b s2 where
                "sat_contradiction (Some ?n) s1 = Inr (b, s2)" "v = Return b s2"
                by (auto split: sum.splits)
              then show ?thesis using keep[OF no_trail_contradiction]
                by (auto simp: visit_state_def)
            qed
          next
            case False
            with v ol obtain b s2 where d: "set_Lit_Decision ol (Some ?n) s1 = Inr (b, s2)"
              by (auto split: sum.splits)
            show ?thesis
            proof (cases b)
              case False
              with v ol d \<open>\<not> sat_instantiated_var s1 (lit_var s1 ol)\<close> have "v = Return False s2"
                by simp
              with keep[OF no_trail_set_Lit_Decision[OF d]] show ?thesis
                by (simp add: visit_state_def)
            next
              case True
              with v ol d \<open>\<not> sat_instantiated_var s1 (lit_var s1 ol)\<close> obtain q where
                "v = Continue (Suc k) (s2\<lparr>propagate_literals := q\<rparr>)"
                by (auto split: sum.splits)
              with keepq[OF no_trail_set_Lit_Decision[OF d]] show ?thesis
                by (simp add: visit_state_def)
            qed
          qed
        qed
      qed
    qed
  qed
qed

lemma wb_kept_watch_loop:
  assumes "watch_loop clit k s = Inr (b, s')"
  shows "wb_kept s s'"
  by (rule watch_loop_rel[where R=wb_kept, OF _ _ _ assms])
     (auto intro: wb_kept_trans dest: wb_kept_watch_visit simp: visit_state_def split: visit.splits)

lemma wb_kept_propagate:
  assumes "propagate_lit_decision lit s = Inr (b, s')"
  shows "wb_kept s s'"
proof -
  from assms obtain s1 where
    s1: "subsume_scan s (item (appears_in s lit)) (asize (appears_in s lit)) = Inr s1"
    and w: "watch_loop (lit_var s lit, lit_id (fold sat_subsume_clause (learned_list s1 lit) s1) lit < 0) 0
              (fold sat_subsume_clause (learned_list s1 lit) s1) = Inr (b, s')"
    by (auto simp: propagate_lit_decision_def Let_def split: sum.splits)
  have "watch_b (fold sat_subsume_clause (learned_list s1 lit) s1) = watch_b s"
    using no_trail_fields(2)[OF no_trail_subsume_scan[OF s1]]
      no_trail_fields(2)[OF no_trail_fold_subsume, of "learned_list s1 lit" s1]
    by simp
  from wb_kept_eq[OF this] wb_kept_watch_loop[OF w] show ?thesis by (rule wb_kept_trans)
qed

lemma wb_kept_unit_resolution:
  assumes "sat_unit_resolution s = Inr (b, s')"
  shows "wb_kept s s'"
  by (rule unit_loop_rel[where R=wb_kept, OF _ _ _ _ assms[unfolded sat_unit_resolution_def]])
     (auto intro: wb_kept_trans dest: wb_kept_propagate simp: wb_kept_def)

lemma assert_attach_watch_b:
  assumes "assert_attach c s = Inr (b, s')"
  shows "watch_b s' c \<noteq> None"
  using assms
proof (rule assert_attach_cases)
  fix s2 wa wb p s4
  assume d: "set_Lit_Decision wa (Some c)
              (s2\<lparr>watch_a := (watch_a s2)(c := Some wa), watch_b := (watch_b s2)(c := Some wb)\<rparr>)
            = Inr (p, s4)"
    and fin: "(\<not> p \<and> \<not> b \<and> s' = s4) \<or>
         (p \<and> (\<exists>q. push (propagate_literals s4) wa = Inr q \<and>
            sat_unit_resolution
              (s4\<lparr>propagate_literals := q, watch_list := attach_watch_list c wa wb s4\<rparr>)
            = Inr (b, s')))"
  have w4: "watch_b s4 c = Some wb"
    using no_trail_fields(2)[OF no_trail_set_Lit_Decision[OF d]] by simp
  from fin show ?thesis
  proof
    assume "\<not> p \<and> \<not> b \<and> s' = s4" with w4 show ?thesis by simp
  next
    assume "p \<and> (\<exists>q. push (propagate_literals s4) wa = Inr q \<and>
            sat_unit_resolution
              (s4\<lparr>propagate_literals := q, watch_list := attach_watch_list c wa wb s4\<rparr>)
            = Inr (b, s'))"
    then obtain q where "sat_unit_resolution
              (s4\<lparr>propagate_literals := q, watch_list := attach_watch_list c wa wb s4\<rparr>)
            = Inr (b, s')" by blast
    from wb_kept_unit_resolution[OF this] w4 show ?thesis by (simp add: wb_kept_def)
  qed
qed

lemma sat_assert_clause_watch_b:
  assumes "sat_assert_clause c s = Inr (r, s')" "r \<noteq> Some c"
  shows "watch_b s' c \<noteq> None"
proof -
  from assms(1) obtain b s1 where a: "assert_attach c s = Inr (b, s1)"
    by (auto simp: sat_assert_clause_def split: sum.splits)
  note w = assert_attach_watch_b[OF a]
  from assms(1) a have "s' = s1 \<or> (\<exists>c'. r = Some c' \<and> sat_build_asserting_clause s1 = Inr (c', s'))"
    by (auto simp: sat_assert_clause_def split: sum.splits prod.splits if_splits bool.splits)
  then show ?thesis
  proof
    assume "s' = s1" with w show ?thesis by simp
  next
    assume "\<exists>c'. r = Some c' \<and> sat_build_asserting_clause s1 = Inr (c', s')"
    then obtain c' where c': "r = Some c'" "sat_build_asserting_clause s1 = Inr (c', s')" by blast
    with assms(2) have "c \<noteq> c'" by simp
    from no_build_fields(18)[OF sat_build_asserting_clause_frame(3)[OF c'(2)] this] w
    show ?thesis by simp
  qed
qed

subsection \<open>What the construction leaves on the propagate queue\<close>

lemma read_tokens_trail:
  "read_tokens toks s = Inr s' \<Longrightarrow>
     length (item (decided_literals s')) =
       length (item (decided_literals s)) + length (takeWhile (\<lambda>v. v \<noteq> 0) toks) \<and>
     propagate_literals s' = propagate_literals s \<and> lits s' = lits s"
  by (induction toks s rule: read_tokens.induct)
     (auto simp: Let_def push_def split: if_splits sum.splits)

lemma read_clause_size:
  assumes "read_clause c toks s = Inr s1" "item (decided_literals s) = []"
  shows "length (item (lits s1 c)) = length (takeWhile (\<lambda>v. v \<noteq> 0) toks)"
    "\<And>c'. c' \<noteq> c \<Longrightarrow> lits s1 c' = lits s c'"
    "item (decided_literals s1) = []" "propagate_literals s1 = propagate_literals s"
proof -
  from assms(1) obtain s0 where t: "read_tokens toks s = Inr s0"
    by (auto simp: read_clause_def split: sum.splits)
  from assms(1) t have s1: "s1 = (let s2 = s0\<lparr>clauses_count := Suc (clauses_count s0)\<rparr>;
               s3 = init_Clause c (clauses_count s2) (length (item (decided_literals s2))) s2;
               s4 = s3\<lparr>lits := (lits s3)(c := (lits s3 c)\<lparr>item := item (decided_literals s3)\<rparr>)\<rparr>
           in s4\<lparr>decided_literals := (decided_literals s4)\<lparr>item := []\<rparr>\<rparr>)"
    by (auto simp: read_clause_def Let_def)
  note r = read_tokens_trail[OF t]
  show "length (item (lits s1 c)) = length (takeWhile (\<lambda>v. v \<noteq> 0) toks)"
    using r assms(2) by (simp add: s1 Let_def init_Clause_def)
  show "\<And>c'. c' \<noteq> c \<Longrightarrow> lits s1 c' = lits s c'"
    using r by (simp add: s1 Let_def init_Clause_def)
  show "item (decided_literals s1) = []" "propagate_literals s1 = propagate_literals s"
    using r by (simp_all add: s1 Let_def init_Clause_def)
qed

lemma read_clauses_sizes:
  "read_clauses i cls s = Inr s' \<Longrightarrow> item (decided_literals s) = [] \<Longrightarrow>
     propagate_literals s' = propagate_literals s \<and>
     (\<forall>j < i. lits s' (ClauseAt j) = lits s (ClauseAt j)) \<and>
     (\<forall>j < length cls. length (item (lits s' (ClauseAt (i + j)))) =
                         length (takeWhile (\<lambda>v. v \<noteq> 0) (cls ! j)))"
proof (induction cls arbitrary: i s)
  case Nil
  then show ?case by auto
next
  case (Cons toks rest)
  let ?c = "ClauseAt i"
  from Cons.prems obtain s1 where r: "read_clause ?c toks s = Inr s1"
    by (auto simp: Let_def split: sum.splits)
  note c = read_clause_size[OF r Cons.prems(2)]
  from Cons.prems(1) r obtain s5 where
    rec: "read_clauses (Suc i) rest s5 = Inr s'" and
    p: "lits s5 = lits s1" "decided_literals s5 = decided_literals s1"
       "propagate_literals s5 = propagate_literals s1"
    by (auto simp: Let_def split: sum.splits if_splits)
  from p(2) c(3) have e: "item (decided_literals s5) = []" by simp
  note ih = Cons.IH[OF rec e]
  have a: "propagate_literals s' = propagate_literals s" using ih p(3) c(4) by simp
  have b: "\<forall>j < i. lits s' (ClauseAt j) = lits s (ClauseAt j)"
    using ih p(1) c(2) by simp
  have h: "lits s' ?c = lits s1 ?c" using ih p(1) by simp
  have d: "\<forall>j < length (toks # rest). length (item (lits s' (ClauseAt (i + j)))) =
                         length (takeWhile (\<lambda>v. v \<noteq> 0) ((toks # rest) ! j))"
  proof (intro allI impI)
    fix j assume j: "j < length (toks # rest)"
    show "length (item (lits s' (ClauseAt (i + j)))) =
                         length (takeWhile (\<lambda>v. v \<noteq> 0) ((toks # rest) ! j))"
    proof (cases j)
      case 0
      then show ?thesis using h c(1) by simp
    next
      case (Suc j')
      with j ih show ?thesis by simp
    qed
  qed
  from a b d show ?case by blast
qed

lemma INIT_appears_in_queue [simp]:
  "lits (INIT_appears_in l s) = lits s"
  "propagate_literals (INIT_appears_in l s) = propagate_literals s"
  "clauses_size (INIT_appears_in l s) = clauses_size s"
  by (simp_all add: INIT_appears_in_def)

lemma init_appears_queue [simp]:
  "lits (init_appears i k s) = lits s"
  "propagate_literals (init_appears i k s) = propagate_literals s"
  "clauses_size (init_appears i k s) = clauses_size s"
  by (induction i k s rule: init_appears.induct) simp_all

lemma appears_fill_queue:
  "appears_fill c s ls k = Inr s' \<Longrightarrow>
     lits s' = lits s \<and> propagate_literals s' = propagate_literals s \<and>
     clauses_size s' = clauses_size s"
  by (induction c s ls k rule: appears_fill.induct) (auto split: sum.splits)

text \<open>The last loop of \<^verbatim>\<open>read_sat_cnf\<close> appends to the queue at the first clause of at most one
  literal that it meets while \<open>passed\<close> holds, and never takes from it.\<close>

lemma root_units_queue:
  "root_units passed i k s = Inr s' \<Longrightarrow>
     lits s' = lits s \<and> clauses_size s' = clauses_size s \<and>
     ((item (propagate_literals s') = []) =
      (item (propagate_literals s) = [] \<and>
       (passed \<longrightarrow> (\<forall>j < k. 1 < length (item (lits s (ClauseAt (i + j))))))))"
proof (induction passed i k s rule: root_units.induct)
  case (1 passed i s)
  then show ?case by simp
next
  case (2 passed i k s)
  let ?c = "ClauseAt i"
  have split: "(\<forall>j < Suc k. 1 < length (item (lits s (ClauseAt (i + j))))) =
      (1 < length (item (lits s ?c)) \<and> (\<forall>j < k. 1 < length (item (lits s (ClauseAt (Suc i + j))))))"
    by (auto simp: less_Suc_eq_0_disj)
  show ?case
  proof (cases "length (item (lits s ?c)) > 1 \<or> \<not> passed")
    case True
    with "2.prems" obtain s1 where
      f: "appears_fill ?c s (item (lits s ?c)) (asize (lits s ?c)) = Inr s1" and
      rec: "root_units passed (Suc i) k s1 = Inr s'"
      by (auto simp: Let_def split: sum.splits)
    note q = appears_fill_queue[OF f]
    from "2.IH"(1)[OF refl True f rec] q True show ?thesis
      unfolding split by auto
  next
    case False
    with "2.prems" obtain wa a p s2 q where
      wa: "watch_a s ?c = Some wa" and
      a: "push (appears_in s wa) ?c = Inr a" and
      d: "set_Lit_Decision wa (Some ?c) (s\<lparr>appears_in := (appears_in s)(wa := a)\<rparr>) = Inr (p, s2)" and
      q: "push (propagate_literals
                 (if \<not> p then s2\<lparr>decided_literals := (decided_literals s2)
                                   \<lparr>item := butlast (item (decided_literals s2))\<rparr>,
                                 is_subsumed := (is_subsumed s2)(?c := False)\<rparr>
                  else s2)) wa = Inr q" and
      rec: "root_units p (Suc i) k
              ((if \<not> p then s2\<lparr>decided_literals := (decided_literals s2)
                                   \<lparr>item := butlast (item (decided_literals s2))\<rparr>,
                                 is_subsumed := (is_subsumed s2)(?c := False)\<rparr>
                else s2)\<lparr>propagate_literals := q\<rparr>) = Inr s'"
      by (auto simp: Let_def split: sum.splits option.splits)
    from q have qn: "item q \<noteq> []" by (auto simp: push_def split: if_splits)
    let ?s1 = "s\<lparr>appears_in := (appears_in s)(wa := a)\<rparr>"
    have n: "no_trail s2 = no_trail ?s1" by (rule no_trail_set_Lit_Decision[OF d])
    have l2: "lits s2 = lits s" "clauses_size s2 = clauses_size s"
      using no_trail_fields(4,5)[OF n] by simp_all
    from "2.IH"(2)[OF refl False wa a refl d refl refl q rec] qn l2 False
    show ?thesis unfolding split by auto
  qed
qed

lemma sat_state_new_queue:
  assumes "sat_state_new mem n cls = Inr s"
  shows "clauses_size s = length cls"
    "\<forall>i < length cls. sat_clause_size s (ClauseAt i) =
                          length (takeWhile (\<lambda>v. v \<noteq> 0) (cls ! i))"
    "(item (propagate_literals s) = []) =
     (\<forall>i < clauses_size s. sat_clause_size s (ClauseAt i) \<noteq> 1)"
proof -
  let ?s4 = "(init_Clause FalseClause 0 0 (init_Lit (Contradiction, pos) 0 Contradiction (mem\<lparr>level := 1\<rparr>)))
              \<lparr>assertion_level := (assertion_level (init_Clause FalseClause 0 0 (init_Lit (Contradiction, pos) 0 Contradiction (mem\<lparr>level := 1\<rparr>))))(FalseClause := 0)\<rparr>"
  from assms obtain s5 where r: "read_sat_cnf n cls ?s4 = Inr s5"
    and s: "s = s5\<lparr>marks := replicate (vars_size s5 + 1) False\<rparr>"
    by (auto simp: sat_state_new_def Let_def split: sum.splits)
  let ?s5 = "(init_vars 0 n (?s4\<lparr>vars_size := n, clauses_size := length cls, vars_count := 0\<rparr>))
        \<lparr>learned_clauses := [], subsumed_clauses := [],
          propagate_literals := \<lparr>item = [], asize = n\<rparr>,
          decided_literals := \<lparr>item = [], asize = n + 1\<rparr>, clauses_count := 0\<rparr>"
  have vs: "vars_size (init_vars i k t) = vars_size t" for i k t
    by (induction i k t rule: init_vars.induct)
       (simp_all add: Let_def init_Var_def init_Lit_def pos_def neg_def)
  from r obtain s6 where rc: "read_clauses 0 cls ?s5 = Inr s6"
    and ru: "root_units True 0 (clauses_size s6) (init_appears 0 (vars_size s6) s6) = Inr s5"
    by (auto simp: read_sat_cnf_def Let_def vs split: sum.splits)
  have "watch_core ?s5 = watch_core (?s4\<lparr>clauses_size := length cls\<rparr>)"
    using init_vars_core[of 0 n "?s4\<lparr>vars_size := n, clauses_size := length cls, vars_count := 0\<rparr>"]
    by (simp add: watch_core_def)
  then have c5: "clauses_size ?s5 = length cls" by (simp add: watch_core_def)
  from read_clauses_ok[OF rc] c5 have c6: "clauses_size s6 = length cls"
    and o6: "\<forall>j < length cls. orig_ok s6 (ClauseAt j)"
    by simp_all
  have "item (decided_literals ?s5) = []" by simp
  from read_clauses_sizes[OF rc this]
  have q6: "item (propagate_literals s6) = []"
    and z6: "\<forall>j < length cls. length (item (lits s6 (ClauseAt j))) =
                               length (takeWhile (\<lambda>v. v \<noteq> 0) (cls ! j))"
    by simp_all
  from root_units_queue[OF ru] q6
  have l5: "lits s5 = lits s6" and c5': "clauses_size s5 = clauses_size s6"
    and q5: "(item (propagate_literals s5) = []) =
             (\<forall>j < clauses_size s6. 1 < length (item (lits s6 (ClauseAt j))))"
    by simp_all
  show "clauses_size s = length cls" by (simp add: s c5' c6)
  show "\<forall>i < length cls. sat_clause_size s (ClauseAt i) =
                          length (takeWhile (\<lambda>v. v \<noteq> 0) (cls ! i))"
    using z6 by (simp add: s l5 sat_clause_size_def)
  have "(1 < length (item (lits s6 (ClauseAt j)))) = (length (item (lits s6 (ClauseAt j))) \<noteq> 1)"
    if "j < length cls" for j
    using o6 that by (auto simp: orig_ok_def)
  then show "(item (propagate_literals s) = []) =
     (\<forall>i < clauses_size s. sat_clause_size s (ClauseAt i) \<noteq> 1)"
    using q5 by (simp add: s l5 c5' c6 sat_clause_size_def)
qed

subsection \<open>The outcomes of one pass of the watch loop\<close>

lemma unwatched_scan_mem:
  "unwatched_scan c s ls k = Inr (Some m, s') \<Longrightarrow>
     m \<in> set ls \<and> s' = s \<and> \<not> sat_instantiated_var s (lit_var s m) \<and>
     Some m \<noteq> watch_a s c \<and> Some m \<noteq> watch_b s c"
  by (induction c s ls k rule: unwatched_scan.induct) (auto split: if_splits)

lemma unwatched_scan_none:
  "unwatched_scan c s ls k = Inr (None, s') \<Longrightarrow>
     s' = sat_subsume_clause c s \<or>
     (s' = s \<and> (\<forall>m \<in> set (take k ls).
         (sat_instantiated_var s (lit_var s m) \<and> \<not> sat_implied_literal s m) \<or>
         (\<not> sat_instantiated_var s (lit_var s m) \<and>
          (Some m = watch_a s c \<or> Some m = watch_b s c))))"
  by (induction c s ls k rule: unwatched_scan.induct) (auto split: if_splits)

lemma watch_visit_elim:
  assumes "watch_visit clit k s = Inr v"
  obtains
    (skip) "sat_subsumed_clause s (watch_list s clit ! k)" "v = Continue (Suc k) s"
  | (satisfied) "\<not> sat_subsumed_clause s (watch_list s clit ! k)"
      "v = Continue (Suc k) (sat_subsume_clause (watch_list s clit ! k) s)"
  | (move) m wa' wb' where "\<not> sat_subsumed_clause s (watch_list s clit ! k)"
      "m \<in> set (item (lits s (watch_list s clit ! k)))"
      "\<not> sat_instantiated_var s (lit_var s m)"
      "(Some clit = watch_a s (watch_list s clit ! k) \<and>
        wa' = (watch_a s)(watch_list s clit ! k := Some m) \<and> wb' = watch_b s) \<or>
       (Some clit \<noteq> watch_a s (watch_list s clit ! k) \<and>
        wa' = watch_a s \<and> wb' = (watch_b s)(watch_list s clit ! k := Some m))"
      "v = Continue (if m = clit then Suc k else k)
             (s\<lparr>watch_a := wa', watch_b := wb',
                watch_list := ((watch_list s)(clit := LIST_REMOVE k (watch_list s clit)))
                   (m := watch_list s clit ! k #
                         ((watch_list s)(clit := LIST_REMOVE k (watch_list s clit))) m)\<rparr>)"
  | (conflict) s2 where "\<not> sat_subsumed_clause s (watch_list s clit ! k)"
      "sat_unwatched_literal (watch_list s clit ! k) s = Inr (None, s)"
      "other_watch s clit (watch_list s clit ! k) = None \<or>
       (\<exists>ol. other_watch s clit (watch_list s clit ! k) = Some ol \<and>
             sat_instantiated_var s (lit_var s ol) \<and> \<not> sat_implied_literal s ol)"
      "sat_contradiction (Some (watch_list s clit ! k)) s = Inr (False, s2)"
      "v = Return False s2"
  | (imply) ol s2 q where "\<not> sat_subsumed_clause s (watch_list s clit ! k)"
      "sat_unwatched_literal (watch_list s clit ! k) s = Inr (None, s)"
      "other_watch s clit (watch_list s clit ! k) = Some ol"
      "\<not> sat_instantiated_var s (lit_var s ol)"
      "set_Lit_Decision ol (Some (watch_list s clit ! k)) s = Inr (True, s2)"
      "push (propagate_literals s2) ol = Inr q"
      "v = Continue (Suc k) (s2\<lparr>propagate_literals := q\<rparr>)"
proof -
  let ?n = "watch_list s clit ! k"
  show ?thesis
  proof (cases "sat_subsumed_clause s ?n")
    case True
    with assms have "v = Continue (Suc k) s" by (auto simp: watch_visit_def Let_def)
    with True show ?thesis by (rule skip)
  next
    case False
    with assms obtain l s1 where u: "sat_unwatched_literal ?n s = Inr (l, s1)"
      by (auto simp: watch_visit_def Let_def split: sum.splits)
    show ?thesis
    proof (cases l)
      case (Some m)
      with u have m: "m \<in> set (item (lits s ?n))" "s1 = s"
        "\<not> sat_instantiated_var s (lit_var s m)"
        using unwatched_scan_mem[of ?n s "item (lits s ?n)" "asize (lits s ?n)" m s1]
        by (simp_all add: sat_unwatched_literal_def)
      let ?wl = "((watch_list s)(clit := LIST_REMOVE k (watch_list s clit)))
                   (m := ?n # ((watch_list s)(clit := LIST_REMOVE k (watch_list s clit))) m)"
      show ?thesis
      proof (cases "Some clit = watch_a s ?n")
        case True
        with assms False u Some m(2)
        have ve: "v = Continue (if m = clit then Suc k else k)
               (s\<lparr>watch_a := (watch_a s)(?n := Some m), watch_b := watch_b s, watch_list := ?wl\<rparr>)"
          by (auto simp: watch_visit_def Let_def)
        have "(Some clit = watch_a s ?n \<and>
                (watch_a s)(?n := Some m) = (watch_a s)(?n := Some m) \<and> watch_b s = watch_b s) \<or>
              (Some clit \<noteq> watch_a s ?n \<and>
                (watch_a s)(?n := Some m) = watch_a s \<and> watch_b s = (watch_b s)(?n := Some m))"
          using True by blast
        from False m(1) m(3) this ve show ?thesis by (rule move)
      next
        case nw: False
        with assms False u Some m(2)
        have ve: "v = Continue (if m = clit then Suc k else k)
               (s\<lparr>watch_a := watch_a s, watch_b := (watch_b s)(?n := Some m), watch_list := ?wl\<rparr>)"
          by (auto simp: watch_visit_def Let_def)
        have "(Some clit = watch_a s ?n \<and>
                watch_a s = (watch_a s)(?n := Some m) \<and> (watch_b s)(?n := Some m) = watch_b s) \<or>
              (Some clit \<noteq> watch_a s ?n \<and>
                watch_a s = watch_a s \<and> (watch_b s)(?n := Some m) = (watch_b s)(?n := Some m))"
          using nw by blast
        from False m(1) m(3) this ve show ?thesis by (rule move)
      qed
    next
      case None
      with u have "s1 = sat_subsume_clause ?n s \<or> s1 = s"
        using unwatched_scan_none[of ?n s "item (lits s ?n)" "asize (lits s ?n)" s1]
        by (auto simp: sat_unwatched_literal_def)
      then show ?thesis
      proof
        assume e: "s1 = sat_subsume_clause ?n s"
        with assms False u None have "v = Continue (Suc k) (sat_subsume_clause ?n s)"
          by (simp add: watch_visit_def Let_def sat_subsumed_clause_def sat_subsume_clause_def)
        with False show ?thesis by (rule satisfied)
      next
        assume e: "s1 = s"
        with u None have u': "sat_unwatched_literal ?n s = Inr (None, s)" by simp
        let ?o = "other_watch s clit ?n"
        from assms False u' 
        have v: "Inr v =
          (case ?o of
             None \<Rightarrow> (case sat_contradiction (Some ?n) s of Inl e \<Rightarrow> Inl e
                       | Inr (b, s2) \<Rightarrow> Inr (Return b s2))
           | Some ol \<Rightarrow>
               if sat_instantiated_var s (lit_var s ol) then
                 (if sat_implied_literal s ol
                  then Inr (Continue (Suc k) (sat_subsume_clause ?n s))
                  else (case sat_contradiction (Some ?n) s of Inl e \<Rightarrow> Inl e
                        | Inr (b, s2) \<Rightarrow> Inr (Return b s2)))
               else
                 (case set_Lit_Decision ol (Some ?n) s of
                    Inl e \<Rightarrow> Inl e
                  | Inr (False, s2) \<Rightarrow> Inr (Return False s2)
                  | Inr (True, s2) \<Rightarrow>
                      (case push (propagate_literals s2) ol of
                         Inl e \<Rightarrow> Inl e
                       | Inr q \<Rightarrow> Inr (Continue (Suc k) (s2\<lparr>propagate_literals := q\<rparr>)))))"
          by (simp add: watch_visit_def Let_def other_watch_def)
        show ?thesis
        proof (cases ?o)
          case None
          with v obtain b s2 where c: "sat_contradiction (Some ?n) s = Inr (b, s2)" "v = Return b s2"
            by (auto split: sum.splits)
          from sat_contradiction_frame(3)[OF c(1)] c have
            "sat_contradiction (Some ?n) s = Inr (False, s2)" "v = Return False s2" by simp_all
          with False u' None show ?thesis by (intro conflict) simp_all
        next
          case (Some ol)
          note ol = Some
          show ?thesis
          proof (cases "sat_instantiated_var s (lit_var s ol)")
            case True
            show ?thesis
            proof (cases "sat_implied_literal s ol")
              case True
              with v ol \<open>sat_instantiated_var s (lit_var s ol)\<close>
              have "v = Continue (Suc k) (sat_subsume_clause ?n s)" by simp
              with False show ?thesis by (rule satisfied)
            next
              case ni: False
              with v ol True obtain b s2 where
                c: "sat_contradiction (Some ?n) s = Inr (b, s2)" "v = Return b s2"
                by (auto split: sum.splits)
              from sat_contradiction_frame(3)[OF c(1)] c have
                "sat_contradiction (Some ?n) s = Inr (False, s2)" "v = Return False s2" by simp_all
              with False u' ol True ni show ?thesis by (intro conflict) simp_all
            qed
          next
            case ui: False
            with v ol obtain b s2 where d: "set_Lit_Decision ol (Some ?n) s = Inr (b, s2)"
              by (auto split: sum.splits)
            with ui have b: "b" 
              by (auto simp: set_Lit_Decision_def Let_def split: sum.splits)
            with v ol d ui obtain q where
              "push (propagate_literals s2) ol = Inr q"
              "v = Continue (Suc k) (s2\<lparr>propagate_literals := q\<rparr>)"
              by (auto split: sum.splits)
            with False u' ol ui d b show ?thesis by (intro imply) simp_all
          qed
        qed
      qed
    qed
  qed
qed

subsection \<open>What a decision adds to the trail and to the log\<close>

text \<open>A literal of one of the variables of the CNF, and a clause all of whose literals and
  watches are such literals.\<close>

definition is_lit :: "sat_state \<Rightarrow> lref \<Rightarrow> bool" where
  "is_lit s l =
     (case fst l of
        Contradiction \<Rightarrow> False
      | VarAt i \<Rightarrow> i < vars_size s \<and> lit_var s (VarAt i, True) = VarAt i \<and>
                   lit_var s (VarAt i, False) = VarAt i)"

definition clause_lits_ok :: "sat_state \<Rightarrow> cref \<Rightarrow> bool" where
  "clause_lits_ok s c =
     (list_all (is_lit s) (item (lits s c)) \<and>
      (case watch_a s c of None \<Rightarrow> True | Some l \<Rightarrow> is_lit s l) \<and>
      (case watch_b s c of None \<Rightarrow> True | Some l \<Rightarrow> is_lit s l))"

definition watches_ok :: "sat_state \<Rightarrow> bool" where
  "watches_ok s =
     (\<forall>i \<in> set [0..<vars_size s]. \<forall>b \<in> set [True, False].
        list_all (clause_lits_ok s) (watch_list s (VarAt i, b)))"

lemma is_lit_var: "is_lit s l \<Longrightarrow> lit_var s l = fst l \<and> lit_var s l \<noteq> Contradiction"
  by (cases l; cases "snd l") (auto simp: is_lit_def split: vref.splits)

lemma is_lit_slot: "is_lit s (v, b) \<Longrightarrow> is_lit s (v, b')"
  by (simp add: is_lit_def)

lemma is_lit_prop_fixed: "prop_fixed s' = prop_fixed s \<Longrightarrow> is_lit s' = is_lit s"
proof -
  assume "prop_fixed s' = prop_fixed s"
  then have "vars_size s' = vars_size s" "lit_var s' = lit_var s" by (simp_all add: prop_fixed_def)
  then show ?thesis by (intro ext) (simp add: is_lit_def split: vref.split)
qed

lemma watches_okD:
  "watches_ok s \<Longrightarrow> is_lit s l \<Longrightarrow> c \<in> set (watch_list s l) \<Longrightarrow> clause_lits_ok s c"
proof -
  assume w: "watches_ok s" and l: "is_lit s l" and c: "c \<in> set (watch_list s l)"
  obtain v b where lb: "l = (v, b)" by (cases l)
  with l obtain i where i: "v = VarAt i" "i < vars_size s"
    by (auto simp: is_lit_def split: vref.splits)
  from w i(2) have "list_all (clause_lits_ok s) (watch_list s (VarAt i, b))"
    by (cases b) (auto simp: watches_ok_def)
  with c lb i(1) show ?thesis by (simp add: list_all_iff)
qed

text \<open>\<open>extends s s'\<close>: from \<open>s\<close> to \<open>s'\<close> the trail got new entries at its end, literals of
  distinct variables that were uninstantiated and now are at the current level, and no other
  variable's level changed; the subsumption log got new entries on top, the clauses that
  were not subsumed and now are.\<close>

definition extends :: "sat_state \<Rightarrow> sat_state \<Rightarrow> bool" where
  "extends s s' =
     (prop_fixed s' = prop_fixed s \<and>
      (\<exists>new. item (decided_literals s') = item (decided_literals s) @ new \<and>
             distinct (map (lit_var s) new) \<and>
             (\<forall>l \<in> set new. is_lit s l \<and> d_level s (lit_var s l) = 0 \<and>
                             d_level s' (lit_var s l) = level s) \<and>
             (\<forall>v. v \<notin> lit_var s ` set new \<longrightarrow> d_level s' v = d_level s v)) \<and>
      (\<exists>added. subsumed_clauses s' = map Some added @ subsumed_clauses s \<and>
               (\<forall>c. is_subsumed s' c = (is_subsumed s c \<or> c \<in> set added)) \<and>
               (\<forall>c \<in> set added. \<not> is_subsumed s c)))"

lemma extends_refl [simp]: "extends s s"
  unfolding extends_def
  by (intro conjI exI[of _ "[]"]) simp_all

lemma extends_prop_fixed: "extends s s' \<Longrightarrow> prop_fixed s' = prop_fixed s"
  by (simp add: extends_def)

lemma extends_fields:
  assumes "extends s s'"
  shows "level s' = level s" "lit_var s' = lit_var s" "is_lit s' = is_lit s"
  using extends_prop_fixed[OF assms] is_lit_prop_fixed[of s' s]
  by (simp_all add: prop_fixed_def)

lemma extends_trans:
  assumes ab: "extends a b" and bc: "extends b c" and lv: "0 < level a"
  shows "extends a c"
proof -
  note fa = extends_fields[OF ab]
  from ab obtain n1 ad1 where
    t1: "item (decided_literals b) = item (decided_literals a) @ n1"
    and d1: "distinct (map (lit_var a) n1)"
    and l1: "\<forall>l \<in> set n1. is_lit a l \<and> d_level a (lit_var a l) = 0 \<and>
                             d_level b (lit_var a l) = level a"
    and o1: "\<forall>v. v \<notin> lit_var a ` set n1 \<longrightarrow> d_level b v = d_level a v"
    and g1: "subsumed_clauses b = map Some ad1 @ subsumed_clauses a"
    and s1: "\<forall>c. is_subsumed b c = (is_subsumed a c \<or> c \<in> set ad1)"
    and f1: "\<forall>c \<in> set ad1. \<not> is_subsumed a c"
    unfolding extends_def by blast
  from bc obtain n2 ad2 where
    t2: "item (decided_literals c) = item (decided_literals b) @ n2"
    and d2: "distinct (map (lit_var b) n2)"
    and l2: "\<forall>l \<in> set n2. is_lit b l \<and> d_level b (lit_var b l) = 0 \<and>
                             d_level c (lit_var b l) = level b"
    and o2: "\<forall>v. v \<notin> lit_var b ` set n2 \<longrightarrow> d_level c v = d_level b v"
    and g2: "subsumed_clauses c = map Some ad2 @ subsumed_clauses b"
    and s2: "\<forall>c'. is_subsumed c c' = (is_subsumed b c' \<or> c' \<in> set ad2)"
    and f2: "\<forall>c' \<in> set ad2. \<not> is_subsumed b c'"
    unfolding extends_def by blast
  have disj: "lit_var a ` set n1 \<inter> lit_var a ` set n2 = {}"
  proof (rule ccontr)
    assume "lit_var a ` set n1 \<inter> lit_var a ` set n2 \<noteq> {}"
    then obtain x y where xy: "x \<in> set n1" "y \<in> set n2" "lit_var a x = lit_var a y" by auto
    from l1 xy(1) have "d_level b (lit_var a x) = level a" by blast
    moreover from l2 xy(2) fa(2) have "d_level b (lit_var a y) = 0" by simp
    ultimately show False using xy(3) lv by simp
  qed
  have p: "prop_fixed c = prop_fixed a"
    using extends_prop_fixed[OF ab] extends_prop_fixed[OF bc] by simp
  have tr: "item (decided_literals c) = item (decided_literals a) @ (n1 @ n2)"
    using t1 t2 by simp
  have di: "distinct (map (lit_var a) (n1 @ n2))"
    using d1 d2 disj fa(2) by simp
  have le: "\<forall>l \<in> set (n1 @ n2). is_lit a l \<and> d_level a (lit_var a l) = 0 \<and>
                             d_level c (lit_var a l) = level a"
  proof
    fix l assume "l \<in> set (n1 @ n2)"
    then consider "l \<in> set n1" | "l \<in> set n2" by auto
    then show "is_lit a l \<and> d_level a (lit_var a l) = 0 \<and> d_level c (lit_var a l) = level a"
    proof cases
      case 1
      with disj have "lit_var a l \<notin> lit_var a ` set n2" by auto
      with o2 fa(2) have "d_level c (lit_var a l) = d_level b (lit_var a l)" by simp
      with l1 1 show ?thesis by simp
    next
      case 2
      with disj have "lit_var a l \<notin> lit_var a ` set n1" by auto
      with o1 have "d_level b (lit_var a l) = d_level a (lit_var a l)" by simp
      with l2 2 fa show ?thesis by simp
    qed
  qed
  have ot: "\<forall>v. v \<notin> lit_var a ` set (n1 @ n2) \<longrightarrow> d_level c v = d_level a v"
  proof (intro allI impI)
    fix v assume "v \<notin> lit_var a ` set (n1 @ n2)"
    then have "v \<notin> lit_var a ` set n1" "v \<notin> lit_var b ` set n2" using fa(2) by auto
    with o1 o2 show "d_level c v = d_level a v" by simp
  qed
  have lg: "subsumed_clauses c = map Some (ad2 @ ad1) @ subsumed_clauses a"
    using g1 g2 by simp
  have su: "\<forall>c'. is_subsumed c c' = (is_subsumed a c' \<or> c' \<in> set (ad2 @ ad1))"
    using s1 s2 by auto
  have fr: "\<forall>c' \<in> set (ad2 @ ad1). \<not> is_subsumed a c'"
    using f1 f2 s1 by auto
  show ?thesis
    unfolding extends_def
    using p tr di le ot lg su fr by blast
qed

lemma extends_subsume: "extends s (sat_subsume_clause c s)"
proof (cases "is_subsumed s c")
  case True
  then show ?thesis by (simp add: sat_subsume_clause_def)
next
  case False
  have "extends s (s\<lparr>is_subsumed := (is_subsumed s)(c := True),
                     subsumed_clauses := Some c # subsumed_clauses s\<rparr>)"
    unfolding extends_def
    apply (intro conjI)
      apply (simp add: prop_fixed_def)
     apply (rule exI[of _ "[]"], simp)
    apply (rule exI[of _ "[c]"])
    using False apply auto
    done
  with False show ?thesis by (simp add: sat_subsume_clause_def)
qed

lemma extends_eq:
  assumes "prop_fixed s' = prop_fixed s" "decided_literals s' = decided_literals s"
    "d_level s' = d_level s" "subsumed_clauses s' = subsumed_clauses s"
    "is_subsumed s' = is_subsumed s"
  shows "extends s s'"
  unfolding extends_def
  using assms
  by (intro conjI exI[of _ "[]"]) simp_all


lemma extends_queue:
  assumes "extends s s'" "asize q = asize (propagate_literals s')"
  shows "extends s (s'\<lparr>propagate_literals := q\<rparr>)"
proof -
  have "prop_fixed (s'\<lparr>propagate_literals := q\<rparr>) = prop_fixed s'"
    using assms(2) by (simp add: prop_fixed_def)
  with assms(1) show ?thesis
    unfolding extends_def by simp
qed

lemma set_Lit_Decision_extends:
  assumes "set_Lit_Decision l imp s = Inr (b, s')" "is_lit s l"
  shows "(b \<and> extends s s') \<or> (\<not> b \<and> sat_contradiction imp s = Inr (False, s'))"
proof (cases "sat_instantiated_var s (lit_var s l)")
  case False
  with assms(1) obtain a where a: "push (decided_literals s) l = Inr a" and b: "b"
    and s': "s' = (set_Var_Decision (lit_var s l) (level s) (lit_id s l > 0) imp s)
                    \<lparr>decided_literals := a\<rparr>"
    by (auto simp: set_Lit_Decision_def Let_def set_Var_Decision_def split: sum.splits)
  from a have ia: "item a = item (decided_literals s) @ [l]" "asize a = asize (decided_literals s)"
    by (auto simp: push_def split: if_splits)
  have "extends s s'"
    unfolding extends_def
  proof (intro conjI)
    show "prop_fixed s' = prop_fixed s"
      using ia(2) by (simp add: s' prop_fixed_def set_Var_Decision_def)
    show "\<exists>new. item (decided_literals s') = item (decided_literals s) @ new \<and>
             distinct (map (lit_var s) new) \<and>
             (\<forall>l \<in> set new. is_lit s l \<and> d_level s (lit_var s l) = 0 \<and>
                             d_level s' (lit_var s l) = level s) \<and>
             (\<forall>v. v \<notin> lit_var s ` set new \<longrightarrow> d_level s' v = d_level s v)"
      using ia(1) assms(2) False
      by (intro exI[of _ "[l]"]) (simp add: s' set_Var_Decision_def sat_instantiated_var_def)
    show "\<exists>added. subsumed_clauses s' = map Some added @ subsumed_clauses s \<and>
               (\<forall>c. is_subsumed s' c = (is_subsumed s c \<or> c \<in> set added)) \<and>
               (\<forall>c \<in> set added. \<not> is_subsumed s c)"
      by (intro exI[of _ "[]"]) (simp add: s' set_Var_Decision_def)
  qed
  with b show ?thesis by simp
next
  case True
  show ?thesis
  proof (cases "sat_implied_literal s l")
    case False
    with True assms(1) have c: "sat_contradiction imp s = Inr (b, s')"
      by (simp add: set_Lit_Decision_def)
    from sat_contradiction_frame(3)[OF c] c show ?thesis by simp
  next
    case imp: True
    with True assms(1) obtain c where "imp = Some c" "b" "s' = sat_subsume_clause c s"
      by (auto simp: set_Lit_Decision_def split: option.splits)
    then show ?thesis by (simp add: extends_subsume)
  qed
qed

definition wfq :: "sat_state \<Rightarrow> bool" where
  "wfq s = (watches_ok s \<and> list_all (is_lit s) (item (propagate_literals s)))"

lemma clause_lits_ok_cong:
  assumes "prop_fixed s' = prop_fixed s" "watch_a s' c = watch_a s c" "watch_b s' c = watch_b s c"
  shows "clause_lits_ok s' c = clause_lits_ok s c"
proof -
  from assms(1) have "lits s' = lits s" by (simp add: prop_fixed_def)
  with assms is_lit_prop_fixed[OF assms(1)] show ?thesis
    by (simp add: clause_lits_ok_def split: option.split)
qed

lemma watches_ok_cong:
  assumes "prop_fixed s' = prop_fixed s" "watch_a s' = watch_a s" "watch_b s' = watch_b s"
    "watch_list s' = watch_list s"
  shows "watches_ok s' = watches_ok s"
proof -
  from assms(1) have "vars_size s' = vars_size s" by (simp add: prop_fixed_def)
  moreover have "clause_lits_ok s' = clause_lits_ok s"
    using clause_lits_ok_cong[OF assms(1)] assms(2,3) by (intro ext) simp
  ultimately show ?thesis using assms(4) by (simp add: watches_ok_def)
qed

lemma wfq_cong:
  assumes "prop_fixed s' = prop_fixed s" "watch_a s' = watch_a s" "watch_b s' = watch_b s"
    "watch_list s' = watch_list s" "item (propagate_literals s') = item (propagate_literals s)"
  shows "wfq s' = wfq s"
  using watches_ok_cong[OF assms(1-4)] is_lit_prop_fixed[OF assms(1)] assms(5)
  by (simp add: wfq_def)

lemma wfq_no_trail:
  assumes "no_trail s' = no_trail s" "prop_fixed s' = prop_fixed s"
  shows "wfq s' = wfq s"
  using wfq_cong[OF assms(2)] no_trail_fields(1,2,3,7)[OF assms(1)] by simp


lemma watches_ok_iff:
  "watches_ok s =
     (\<forall>i < vars_size s. \<forall>b. \<forall>c \<in> set (watch_list s (VarAt i, b)). clause_lits_ok s c)"
  apply (simp add: watches_ok_def list_all_iff)
  apply (rule iffI)
   apply (intro allI impI ballI)
  subgoal for i b c by (cases b) auto
  apply auto
  done

lemma set_LIST_REMOVE: "set (LIST_REMOVE k xs) \<subseteq> set xs"
  unfolding LIST_REMOVE_def
  using set_take_subset[of k xs] set_drop_subset[of "Suc k" xs] by auto

lemma watch_visit_extends:
  assumes v: "watch_visit clit k s = Inr v" and k: "k < length (watch_list s clit)"
    and cl: "is_lit s clit" and w: "wfq s"
  shows "case v of Continue k' s' \<Rightarrow> extends s s' \<and> wfq s'
                 | Return b s' \<Rightarrow> \<not> b \<and> (\<exists>imp. sat_contradiction imp s = Inr (False, s'))"
proof -
  let ?n = "watch_list s clit ! k"
  from w have wo: "watches_ok s" and wq: "list_all (is_lit s) (item (propagate_literals s))"
    by (simp_all add: wfq_def)
  have n: "clause_lits_ok s ?n" by (rule watches_okD[OF wo cl nth_mem[OF k]])
  from v show ?thesis
  proof (cases rule: watch_visit_elim)
    case skip
    then show ?thesis using w by simp
  next
    case satisfied
    have "wfq (sat_subsume_clause ?n s) = wfq s" by (rule wfq_no_trail) simp_all
    with satisfied w show ?thesis by (simp add: extends_subsume)
  next
    case (move m wa' wb')
    let ?wl = "((watch_list s)(clit := LIST_REMOVE k (watch_list s clit)))
                   (m := ?n # ((watch_list s)(clit := LIST_REMOVE k (watch_list s clit))) m)"
    let ?s4 = "s\<lparr>watch_a := wa', watch_b := wb', watch_list := ?wl\<rparr>"
    have pf: "prop_fixed ?s4 = prop_fixed s" by (simp add: prop_fixed_def)
    have e: "extends s ?s4" by (rule extends_eq[OF pf]) simp_all
    have m: "is_lit s m" using n move(2) by (simp add: clause_lits_ok_def list_all_iff)
    have il: "is_lit ?s4 = is_lit s" by (rule is_lit_prop_fixed[OF pf])
    have ok: "clause_lits_ok ?s4 c" if "clause_lits_ok s c" for c
    proof (cases "c = ?n")
      case True
      have wa: "watch_a ?s4 ?n = Some m \<or> watch_a ?s4 ?n = watch_a s ?n"
        and wb: "watch_b ?s4 ?n = Some m \<or> watch_b ?s4 ?n = watch_b s ?n"
        using move(4) by auto
      have l4: "lits ?s4 ?n = lits s ?n" by simp
      show ?thesis
        unfolding clause_lits_ok_def il True l4
        using n m wa wb by (auto simp: clause_lits_ok_def split: option.splits)
    next
      case False
      with move(4) have "watch_a ?s4 c = watch_a s c" "watch_b ?s4 c = watch_b s c" by auto
      from clause_lits_ok_cong[OF pf this] that show ?thesis by simp
    qed
    have "watches_ok ?s4"
      unfolding watches_ok_iff
    proof (intro allI impI ballI)
      fix i b c assume i: "i < vars_size ?s4" and c: "c \<in> set (watch_list ?s4 (VarAt i, b))"
      from c have "c = ?n \<or> c \<in> set (LIST_REMOVE k (watch_list s clit)) \<or>
                   c \<in> set (watch_list s m) \<or> c \<in> set (watch_list s (VarAt i, b))"
        by (auto split: if_splits)
      then have "c = ?n \<or> c \<in> set (watch_list s clit) \<or>
                   c \<in> set (watch_list s m) \<or> c \<in> set (watch_list s (VarAt i, b))"
        using set_LIST_REMOVE[of k "watch_list s clit"] by auto
      then have "clause_lits_ok s c"
        using n watches_okD[OF wo cl] watches_okD[OF wo m] wo i
        by (auto simp: watches_ok_iff)
      then show "clause_lits_ok ?s4 c" by (rule ok)
    qed
    moreover have "list_all (is_lit ?s4) (item (propagate_literals ?s4))"
      unfolding il using wq by simp
    ultimately have "wfq ?s4" by (simp add: wfq_def)
    with e move(5) show ?thesis by simp
  next
    case (conflict s2)
    then show ?thesis by auto
  next
    case (imply ol s2 q)
    from imply(3) n have ol: "is_lit s ol"
      by (auto simp: other_watch_def clause_lits_ok_def split: if_splits option.splits)
    from set_Lit_Decision_extends[OF imply(5) ol] have e2: "extends s s2" by simp
    from imply(6) have q: "item q = item (propagate_literals s2) @ [ol]"
      "asize q = asize (propagate_literals s2)"
      by (auto simp: push_def split: if_splits)
    have e: "extends s (s2\<lparr>propagate_literals := q\<rparr>)" by (rule extends_queue[OF e2 q(2)])
    note nt = no_trail_fields[OF no_trail_set_Lit_Decision[OF imply(5)]]
    have pf: "prop_fixed (s2\<lparr>propagate_literals := q\<rparr>) = prop_fixed s"
      using extends_prop_fixed[OF e] .
    have "watches_ok (s2\<lparr>propagate_literals := q\<rparr>) = watches_ok s"
      by (rule watches_ok_cong[OF pf]) (simp_all add: nt)
    moreover have "list_all (is_lit (s2\<lparr>propagate_literals := q\<rparr>))
                     (item (propagate_literals (s2\<lparr>propagate_literals := q\<rparr>)))"
      unfolding is_lit_prop_fixed[OF pf] using wq ol q(1) by (simp add: nt(7))
    ultimately have "wfq (s2\<lparr>propagate_literals := q\<rparr>)" using wo by (simp add: wfq_def)
    with e imply(7) show ?thesis by simp
  qed
qed


text \<open>\<open>conflicts s s'\<close>: the trail and the log were extended and then \<^verbatim>\<open>sat_contradiction\<close>
  put the contradiction on the trail.\<close>

definition conflicts :: "sat_state \<Rightarrow> sat_state \<Rightarrow> bool" where
  "conflicts s s' = (\<exists>s1 imp. extends s s1 \<and> sat_contradiction imp s1 = Inr (False, s'))"

lemma conflicts_trans:
  "extends a b \<Longrightarrow> conflicts b c \<Longrightarrow> 0 < level a \<Longrightarrow> conflicts a c"
  unfolding conflicts_def by (blast intro: extends_trans)

lemma watch_loop_extends:
  "watch_loop clit k s = Inr (b, s') \<Longrightarrow> is_lit s clit \<Longrightarrow> wfq s \<Longrightarrow> 0 < level s \<Longrightarrow>
     (b \<longrightarrow> extends s s' \<and> wfq s') \<and> (\<not> b \<longrightarrow> conflicts s s')"
proof (induction clit k s rule: watch_loop.induct)
  case (1 clit k s)
  show ?case
  proof (cases "k < length (watch_list s clit)")
    case False
    with "1.prems" show ?thesis by (simp add: watch_loop.simps)
  next
    case True
    show ?thesis
    proof (cases "watch_visit clit k s")
      case (Inl e)
      with True "1.prems"(1) show ?thesis by (simp add: watch_loop.simps)
    next
      case (Inr v)
      note st = watch_visit_extends[OF Inr True "1.prems"(2,3)]
      show ?thesis
      proof (cases v)
        case (Return b' s1)
        with Inr True "1.prems"(1) have "s' = s1" "b = b'" by (simp_all add: watch_loop.simps)
        with st Return have "\<not> b" "\<exists>imp. sat_contradiction imp s = Inr (False, s')" by simp_all
        then show ?thesis unfolding conflicts_def using extends_refl[of s] by blast
      next
        case (Continue k' s1)
        with Inr True "1.prems"(1) have r: "watch_loop clit k' s1 = Inr (b, s')"
          by (simp add: watch_loop.simps)
        from st Continue have e1: "extends s s1" and w1: "wfq s1" by simp_all
        have c1: "is_lit s1 clit" and l1: "0 < level s1"
          using extends_fields[OF e1] "1.prems"(2,4) by simp_all
        from "1.IH"[OF True Inr Continue r c1 w1 l1]
        have ih: "b \<longrightarrow> extends s1 s' \<and> wfq s'" "\<not> b \<longrightarrow> conflicts s1 s'" by simp_all
        show ?thesis
          using ih extends_trans[OF e1 _ "1.prems"(4)] conflicts_trans[OF e1 _ "1.prems"(4)]
          by blast
      qed
    qed
  qed
qed

lemma subsume_scan_extends:
  "subsume_scan s cs k = Inr s' \<Longrightarrow> 0 < level s \<Longrightarrow> extends s s'"
proof (induction s cs k rule: subsume_scan.induct)
  case (3 s clause cs k)
  have e: "extends s (sat_subsume_clause clause s)" by (rule extends_subsume)
  from "3.prems" have "subsume_scan (sat_subsume_clause clause s) cs k = Inr s'" by simp
  from "3.IH"[OF this] "3.prems"(2) have "extends (sat_subsume_clause clause s) s'" by simp
  from extends_trans[OF e this "3.prems"(2)] show ?case .
qed simp_all

lemma fold_subsume_extends:
  "0 < level s \<Longrightarrow> extends s (fold sat_subsume_clause cs s)"
proof (induction cs arbitrary: s)
  case (Cons c cs)
  have e: "extends s (sat_subsume_clause c s)" by (rule extends_subsume)
  from Cons.IH[of "sat_subsume_clause c s"] Cons.prems
  have "extends (sat_subsume_clause c s) (fold sat_subsume_clause cs (sat_subsume_clause c s))"
    by simp
  from extends_trans[OF e this Cons.prems] show ?case by simp
qed simp

lemma propagate_lit_decision_extends:
  assumes "propagate_lit_decision lit s = Inr (b, s')" "is_lit s lit" "wfq s" "0 < level s"
  shows "(b \<longrightarrow> extends s s' \<and> wfq s') \<and> (\<not> b \<longrightarrow> conflicts s s')"
proof -
  from assms(1) obtain s1 where
    sc: "subsume_scan s (item (appears_in s lit)) (asize (appears_in s lit)) = Inr s1"
    by (auto simp: propagate_lit_decision_def Let_def split: sum.splits)
  let ?s2 = "fold sat_subsume_clause (learned_list s1 lit) s1"
  let ?clit = "(lit_var s lit, lit_id ?s2 lit < 0)"
  from assms(1) sc have wl: "watch_loop ?clit 0 ?s2 = Inr (b, s')"
    by (simp add: propagate_lit_decision_def Let_def)
  have e1: "extends s s1" by (rule subsume_scan_extends[OF sc assms(4)])
  have l1: "0 < level s1" using extends_fields(1)[OF e1] assms(4) by simp
  have e2: "extends s1 ?s2" by (rule fold_subsume_extends[OF l1])
  have e: "extends s ?s2" by (rule extends_trans[OF e1 e2 assms(4)])
  have nt: "no_trail ?s2 = no_trail s" using no_trail_subsume_scan[OF sc] by simp
  have w2: "wfq ?s2" using wfq_no_trail[OF nt extends_prop_fixed[OF e]] assms(3) by simp
  have l2: "0 < level ?s2" using extends_fields(1)[OF e] assms(4) by simp
  have "is_lit s ?clit"
    using assms(2) is_lit_var[OF assms(2)] by (cases lit) (simp add: is_lit_def)
  then have c2: "is_lit ?s2 ?clit" by (simp add: extends_fields(3)[OF e])
  from watch_loop_extends[OF wl c2 w2 l2]
  show ?thesis
    using extends_trans[OF e _ assms(4)] conflicts_trans[OF e _ assms(4)] by blast
qed

lemma unit_loop_extends:
  "unit_loop i s = Inr (b, s') \<Longrightarrow> wfq s \<Longrightarrow> 0 < level s \<Longrightarrow>
     (b \<longrightarrow> extends s s' \<and> wfq s' \<and> item (propagate_literals s') = []) \<and>
     (\<not> b \<longrightarrow> conflicts s s')"
proof (induction i s rule: unit_loop.induct)
  case (1 i s)
  show ?case
  proof (cases "i < length (item (propagate_literals s))")
    case False
    let ?t = "s\<lparr>propagate_literals := (propagate_literals s)\<lparr>item := []\<rparr>\<rparr>"
    from False "1.prems"(1) have r: "b" "s' = ?t" by (auto simp: unit_loop.simps)
    have pf: "prop_fixed ?t = prop_fixed s" by (simp add: prop_fixed_def)
    have e: "extends s ?t" by (rule extends_eq[OF pf]) simp_all
    have "watches_ok ?t = watches_ok s" by (rule watches_ok_cong[OF pf]) simp_all
    with "1.prems"(2) have "wfq ?t" by (simp add: wfq_def)
    with r e show ?thesis by simp
  next
    case True
    let ?l = "item (propagate_literals s) ! i"
    from True "1.prems"(2) have il: "is_lit s ?l" by (simp add: wfq_def list_all_length)
    show ?thesis
    proof (cases "propagate_lit_decision ?l s")
      case (Inl e)
      with True "1.prems"(1) show ?thesis by (simp add: unit_loop.simps)
    next
      case (Inr r)
      obtain b1 s1 where r: "r = (b1, s1)" by (cases r)
      note st = propagate_lit_decision_extends[OF Inr[unfolded r] il "1.prems"(2,3)]
      show ?thesis
      proof (cases b1)
        case False
        with Inr r True "1.prems"(1) have "s' = s1" "\<not> b" by (simp_all add: unit_loop.simps)
        with st False show ?thesis by simp
      next
        case True': True
        with Inr r True "1.prems"(1) have u: "unit_loop (Suc i) s1 = Inr (b, s')"
          by (simp add: unit_loop.simps)
        from st True' have e1: "extends s s1" and w1: "wfq s1" by simp_all
        have l1: "0 < level s1" using extends_fields(1)[OF e1] "1.prems"(3) by simp
        from "1.IH"[OF True Inr r[symmetric] True'[THEN eqTrueI] u w1 l1]
        show ?thesis
          using extends_trans[OF e1 _ "1.prems"(3)] conflicts_trans[OF e1 _ "1.prems"(3)]
          by blast
      qed
    qed
  qed
qed

subsection \<open>What the undo removes\<close>

lemma undo_trail_frame [simp]:
  "subsumed_clauses (undo_trail s) = subsumed_clauses s"
  "is_subsumed (undo_trail s) = is_subsumed s"
  "d_value (undo_trail s) = d_value s"
  "d_implied_by (undo_trail s) = d_implied_by s"
  "asize (decided_literals (undo_trail s)) = asize (decided_literals s)"
proof (induction s rule: undo_trail.induct)
  case (1 s)
  {
    case 1
    show ?case
    proof (cases "item (decided_literals s) \<noteq> [] \<and>
         d_level s (lit_var s (last (item (decided_literals s)))) = level s")
      case True
      from "1.IH"(1)[OF True] True show ?thesis
        by (subst undo_trail.simps) (simp add: unset_Var_Decision_def)
    next
      case False
      then show ?thesis by (subst undo_trail.simps) auto
    qed
  next
    case 2
    show ?case
    proof (cases "item (decided_literals s) \<noteq> [] \<and>
         d_level s (lit_var s (last (item (decided_literals s)))) = level s")
      case True
      from "1.IH"(2)[OF True] True show ?thesis
        by (subst undo_trail.simps) (simp add: unset_Var_Decision_def)
    next
      case False
      then show ?thesis by (subst undo_trail.simps) auto
    qed
  next
    case 3
    show ?case
    proof (cases "item (decided_literals s) \<noteq> [] \<and>
         d_level s (lit_var s (last (item (decided_literals s)))) = level s")
      case True
      from "1.IH"(3)[OF True] True show ?thesis
        by (subst undo_trail.simps) (simp add: unset_Var_Decision_def)
    next
      case False
      then show ?thesis by (subst undo_trail.simps) auto
    qed
  next
    case 4
    show ?case
    proof (cases "item (decided_literals s) \<noteq> [] \<and>
         d_level s (lit_var s (last (item (decided_literals s)))) = level s")
      case True
      from "1.IH"(4)[OF True] True show ?thesis
        by (subst undo_trail.simps) (simp add: unset_Var_Decision_def)
    next
      case False
      then show ?thesis by (subst undo_trail.simps) auto
    qed
  next
    case 5
    show ?case
    proof (cases "item (decided_literals s) \<noteq> [] \<and>
         d_level s (lit_var s (last (item (decided_literals s)))) = level s")
      case True
      from "1.IH"(5)[OF True] True show ?thesis
        by (subst undo_trail.simps) (simp add: unset_Var_Decision_def)
    next
      case False
      then show ?thesis by (subst undo_trail.simps) auto
    qed
  }
qed

text \<open>When the trail ends with literals of distinct variables at the current level, after
  an entry of another level, \<^verbatim>\<open>sat_undo_unit_resolution\<close>'s first loop pops exactly these and
  zeroes their levels.\<close>

lemma undo_trail_pops:
  "item (decided_literals t) = old @ new \<Longrightarrow> distinct (map (lit_var t) new) \<Longrightarrow>
   (\<forall>l \<in> set new. d_level t (lit_var t l) = level t) \<Longrightarrow>
   (old = [] \<or> (d_level t (lit_var t (last old)) \<noteq> level t \<and>
                 lit_var t (last old) \<notin> lit_var t ` set new)) \<Longrightarrow>
   item (decided_literals (undo_trail t)) = old \<and>
   d_level (undo_trail t) = (\<lambda>v. if v \<in> lit_var t ` set new then 0 else d_level t v)"
proof (induction new arbitrary: t rule: rev_induct)
  case Nil
  then have "undo_trail t = t" by (subst undo_trail.simps) auto
  with Nil show ?case by simp
next
  case (snoc l ns)
  let ?t1 = "unset_Var_Decision (lit_var t l)
               (t\<lparr>decided_literals := (decided_literals t)\<lparr>item := old @ ns\<rparr>\<rparr>)"
  from snoc.prems(1,3) have u: "undo_trail t = undo_trail ?t1"
    by (subst undo_trail.simps) (simp add: butlast_append)
  have f: "lit_var ?t1 = lit_var t" "level ?t1 = level t"
    "d_level ?t1 = (d_level t)(lit_var t l := 0)"
    "item (decided_literals ?t1) = old @ ns"
    by (simp_all add: unset_Var_Decision_def)
  have a: "distinct (map (lit_var ?t1) ns)" using snoc.prems(2) by (simp add: f(1))
  have b: "\<forall>l' \<in> set ns. d_level ?t1 (lit_var ?t1 l') = level ?t1"
  proof
    fix l' assume m: "l' \<in> set ns"
    from snoc.prems(2) have "lit_var t l \<notin> lit_var t ` set ns" by simp
    with m have "lit_var t l' \<noteq> lit_var t l" by (metis imageI)
    with snoc.prems(3) m show "d_level ?t1 (lit_var ?t1 l') = level ?t1" by (simp add: f)
  qed
  have c: "old = [] \<or> (d_level ?t1 (lit_var ?t1 (last old)) \<noteq> level ?t1 \<and>
                 lit_var ?t1 (last old) \<notin> lit_var ?t1 ` set ns)"
    using snoc.prems(4) by (auto simp: f)
  from snoc.IH[OF f(4) a b c]
  have ih: "item (decided_literals (undo_trail ?t1)) = old"
    "d_level (undo_trail ?t1) = (\<lambda>v. if v \<in> lit_var ?t1 ` set ns then 0 else d_level ?t1 v)"
    by simp_all
  show ?case
    unfolding u using ih by (auto simp: f fun_eq_iff)
qed

lemma undo_subsumed_frame [simp]:
  "d_level (undo_subsumed cs s) = d_level s"
  "d_value (undo_subsumed cs s) = d_value s"
  "d_implied_by (undo_subsumed cs s) = d_implied_by s"
  "decided_literals (undo_subsumed cs s) = decided_literals s"
  "propagate_literals (undo_subsumed cs s) = propagate_literals s"
  by (induction cs s rule: undo_subsumed.induct) simp_all

lemma undo_subsumed_pops:
  "subsumed_clauses (undo_subsumed (map Some added @ None # rest) s) = rest \<and>
   is_subsumed (undo_subsumed (map Some added @ None # rest) s) =
     (\<lambda>c. if c \<in> set added then False else is_subsumed s c)"
  by (induction added arbitrary: s) (auto simp: fun_eq_iff)


subsection \<open>A decision and its undo\<close>

lemma is_lit_fields:
  "vars_size s' = vars_size s \<Longrightarrow> lit_var s' = lit_var s \<Longrightarrow> is_lit s' = is_lit s"
  by (intro ext) (simp add: is_lit_def split: vref.split)

lemma watches_ok_fields:
  assumes "vars_size s' = vars_size s" "lit_var s' = lit_var s" "lits s' = lits s"
    "watch_a s' = watch_a s" "watch_b s' = watch_b s" "watch_list s' = watch_list s"
  shows "watches_ok s' = watches_ok s"
proof -
  note il = is_lit_fields[OF assms(1,2)]
  have "clause_lits_ok s' = clause_lits_ok s"
    by (intro ext) (simp add: clause_lits_ok_def il assms split: option.split)
  then show ?thesis by (simp add: watches_ok_def assms)
qed

text \<open>The trail of a state between operations: literals of variables at levels from 1 to the
  current one.\<close>

definition trail_ok :: "sat_state \<Rightarrow> bool" where
  "trail_ok s =
     list_all (\<lambda>l. lit_var s l \<noteq> Contradiction \<and> 1 \<le> d_level s (lit_var s l) \<and>
                    d_level s (lit_var s l) \<le> level s)
       (item (decided_literals s))"

text \<open>\<open>grown c0 s t\<close>: as \<open>extends\<close>, where the last new entry of the trail may be the
  contradiction, and with nothing said of the clause \<open>c0\<close>.\<close>

definition grown :: "cref \<Rightarrow> sat_state \<Rightarrow> sat_state \<Rightarrow> bool" where
  "grown c0 s t =
     (level t = level s \<and> lit_var t = lit_var s \<and>
      asize (decided_literals t) = asize (decided_literals s) \<and>
      asize (propagate_literals t) = asize (propagate_literals s) \<and>
      (\<exists>new. item (decided_literals t) = item (decided_literals s) @ new \<and>
             distinct (map (lit_var s) new) \<and>
             (\<forall>l \<in> set new. d_level t (lit_var s l) = level s \<and>
                (lit_var s l = Contradiction \<or> d_level s (lit_var s l) = 0)) \<and>
             (\<forall>v. v \<notin> lit_var s ` set new \<longrightarrow> d_level t v = d_level s v)) \<and>
      (\<exists>added. subsumed_clauses t = map Some added @ subsumed_clauses s \<and>
               (\<forall>c. c \<noteq> c0 \<longrightarrow> is_subsumed t c = (is_subsumed s c \<or> c \<in> set added)) \<and>
               (\<forall>c \<in> set added. \<not> is_subsumed s c)))"

lemma extends_grown:
  assumes "extends s t"
  shows "grown c0 s t"
proof -
  from assms obtain new added where
    n: "item (decided_literals t) = item (decided_literals s) @ new"
       "distinct (map (lit_var s) new)"
       "\<forall>l \<in> set new. is_lit s l \<and> d_level s (lit_var s l) = 0 \<and>
                             d_level t (lit_var s l) = level s"
       "\<forall>v. v \<notin> lit_var s ` set new \<longrightarrow> d_level t v = d_level s v"
    and a: "subsumed_clauses t = map Some added @ subsumed_clauses s"
       "\<forall>c. is_subsumed t c = (is_subsumed s c \<or> c \<in> set added)"
       "\<forall>c \<in> set added. \<not> is_subsumed s c"
    unfolding extends_def by blast
  from extends_prop_fixed[OF assms] have f: "level t = level s" "lit_var t = lit_var s"
    "asize (decided_literals t) = asize (decided_literals s)"
    "asize (propagate_literals t) = asize (propagate_literals s)"
    by (simp_all add: prop_fixed_def)
  have n3: "\<forall>l \<in> set new. d_level t (lit_var s l) = level s \<and>
                (lit_var s l = Contradiction \<or> d_level s (lit_var s l) = 0)"
    using n(3) by auto
  have a2: "\<forall>c. c \<noteq> c0 \<longrightarrow> is_subsumed t c = (is_subsumed s c \<or> c \<in> set added)"
    using a(2) by blast
  show ?thesis
    unfolding grown_def using f n(1,2) n3 n(4) a(1) a2 a(3) by blast
qed

lemma conflicts_grown:
  assumes "conflicts s t" "lit_var s (Contradiction, pos) = Contradiction"
  shows "grown c0 s t"
proof -
  from assms(1) obtain s1 imp where e: "extends s s1"
    and c: "sat_contradiction imp s1 = Inr (False, t)"
    unfolding conflicts_def by blast
  from e obtain new added where
    n: "item (decided_literals s1) = item (decided_literals s) @ new"
       "distinct (map (lit_var s) new)"
       "\<forall>l \<in> set new. is_lit s l \<and> d_level s (lit_var s l) = 0 \<and>
                             d_level s1 (lit_var s l) = level s"
       "\<forall>v. v \<notin> lit_var s ` set new \<longrightarrow> d_level s1 v = d_level s v"
    and a: "subsumed_clauses s1 = map Some added @ subsumed_clauses s"
       "\<forall>c. is_subsumed s1 c = (is_subsumed s c \<or> c \<in> set added)"
       "\<forall>c \<in> set added. \<not> is_subsumed s c"
    unfolding extends_def by blast
  from extends_prop_fixed[OF e] have f: "level s1 = level s" "lit_var s1 = lit_var s"
    "asize (decided_literals s1) = asize (decided_literals s)"
    "asize (propagate_literals s1) = asize (propagate_literals s)"
    by (simp_all add: prop_fixed_def)
  from c have t: "item (decided_literals t) = item (decided_literals s1) @ [(Contradiction, pos)]"
    "asize (decided_literals t) = asize (decided_literals s1)"
    "d_level t = (d_level s1)(Contradiction := level s1)"
    "level t = level s1" "lit_var t = lit_var s1" "propagate_literals t = propagate_literals s1"
    "subsumed_clauses t = subsumed_clauses s1" "is_subsumed t = is_subsumed s1"
    by (auto simp: sat_contradiction_def Let_def set_Var_Decision_def push_def
             split: sum.splits if_splits)
  let ?new = "new @ [(Contradiction, pos)]"
  have nc: "Contradiction \<notin> lit_var s ` set new"
    using n(3) is_lit_var by (metis imageE)
  have g1: "item (decided_literals t) = item (decided_literals s) @ ?new"
    using t(1) n(1) by simp
  have g2: "distinct (map (lit_var s) ?new)" using n(2) nc assms(2) by simp
  have g3: "\<forall>l \<in> set ?new. d_level t (lit_var s l) = level s \<and>
                (lit_var s l = Contradiction \<or> d_level s (lit_var s l) = 0)"
    using n(3) assms(2) by (auto simp: t(3) f(1))
  have g4: "\<forall>v. v \<notin> lit_var s ` set ?new \<longrightarrow> d_level t v = d_level s v"
    using n(4) assms(2) by (auto simp: t(3))
  have g5: "subsumed_clauses t = map Some added @ subsumed_clauses s" using a(1) t(7) by simp
  have g6: "\<forall>c. c \<noteq> c0 \<longrightarrow> is_subsumed t c = (is_subsumed s c \<or> c \<in> set added)"
    using a(2) t(8) by simp
  have g0: "level t = level s" "lit_var t = lit_var s"
    "asize (decided_literals t) = asize (decided_literals s)"
    "asize (propagate_literals t) = asize (propagate_literals s)"
    using t f by simp_all
  show ?thesis
    unfolding grown_def using g0 g1 g2 g3 g4 g5 g6 a(3) by blast
qed

lemma grown_build:
  assumes g: "grown c0 s t" and b: "sat_build_asserting_clause t = Inr (c0, t')"
  shows "grown c0 s t'"
proof -
  note nb = no_build_fields[OF sat_build_asserting_clause_frame(3)[OF b]]
  have "\<forall>c. c \<noteq> c0 \<longrightarrow> is_subsumed t' c = is_subsumed t c" using nb(19) by blast
  with g show ?thesis
    unfolding grown_def by (simp add: nb(2,3,4,5,6,11))
qed


lemma grown_undo:
  assumes g: "grown c0 s2 t"
    and s2: "level s2 = Suc (level s)" "subsumed_clauses s2 = None # subsumed_clauses s"
      "decided_literals s2 = decided_literals s" "d_level s2 = d_level s"
      "is_subsumed s2 = is_subsumed s" "lit_var s2 = lit_var s"
      "asize (propagate_literals s2) = asize (propagate_literals s)"
    and tr: "trail_ok s"
  shows "level (sat_undo_decide_literal t) = level s"
    "\<forall>v. v \<noteq> Contradiction \<longrightarrow> d_level (sat_undo_decide_literal t) v = d_level s v"
    "\<forall>c. c \<noteq> c0 \<longrightarrow> is_subsumed (sat_undo_decide_literal t) c = is_subsumed s c"
    "decided_literals (sat_undo_decide_literal t) = decided_literals s"
    "subsumed_clauses (sat_undo_decide_literal t) = subsumed_clauses s"
    "item (propagate_literals (sat_undo_decide_literal t)) = []"
    "asize (propagate_literals (sat_undo_decide_literal t)) = asize (propagate_literals s)"
proof -
  let ?old = "item (decided_literals s)"
  from g obtain new added where
    f: "level t = level s2" "lit_var t = lit_var s2"
       "asize (decided_literals t) = asize (decided_literals s2)"
       "asize (propagate_literals t) = asize (propagate_literals s2)"
    and n: "item (decided_literals t) = item (decided_literals s2) @ new"
       "distinct (map (lit_var s2) new)"
       "\<forall>l \<in> set new. d_level t (lit_var s2 l) = level s2 \<and>
                (lit_var s2 l = Contradiction \<or> d_level s2 (lit_var s2 l) = 0)"
       "\<forall>v. v \<notin> lit_var s2 ` set new \<longrightarrow> d_level t v = d_level s2 v"
    and a: "subsumed_clauses t = map Some added @ subsumed_clauses s2"
       "\<forall>c. c \<noteq> c0 \<longrightarrow> is_subsumed t c = (is_subsumed s2 c \<or> c \<in> set added)"
       "\<forall>c \<in> set added. \<not> is_subsumed s2 c"
    unfolding grown_def by blast
  have lt: "lit_var t = lit_var s" using f(2) s2(6) by simp
  have p1: "item (decided_literals t) = ?old @ new" using n(1) s2(3) by simp
  have p2: "distinct (map (lit_var t) new)" using n(2) f(2) by simp
  have p3: "\<forall>l \<in> set new. d_level t (lit_var t l) = level t" using n(3) f(1,2) by simp
  have p4: "?old = [] \<or> (d_level t (lit_var t (last ?old)) \<noteq> level t \<and>
                 lit_var t (last ?old) \<notin> lit_var t ` set new)"
  proof (cases "?old = []")
    case False
    let ?v = "lit_var s (last ?old)"
    from False tr have v: "?v \<noteq> Contradiction" "1 \<le> d_level s ?v" "d_level s ?v \<le> level s"
      using last_in_set[OF False] by (auto simp: trail_ok_def list_all_iff)
    have nv: "?v \<notin> lit_var s2 ` set new"
    proof
      assume "?v \<in> lit_var s2 ` set new"
      then obtain l where "l \<in> set new" "lit_var s2 l = ?v" by auto
      with n(3) have "?v = Contradiction \<or> d_level s2 ?v = 0" by auto
      with v s2(4) show False by simp
    qed
    with n(4) have "d_level t ?v = d_level s ?v" by (simp add: s2(4))
    with v(3) nv f(1,2) s2(1,6) show ?thesis by (simp add: lt)
  qed simp
  note ut = undo_trail_pops[OF p1 p2 p3 p4]
  let ?u1 = "undo_trail t"
  let ?u2 = "undo_subsumed (subsumed_clauses ?u1) ?u1"
  have lg: "subsumed_clauses t = map Some added @ None # subsumed_clauses s"
    using a(1) s2(2) by simp
  note us = undo_subsumed_pops[of added "subsumed_clauses s" ?u1]
  have pf: "prop_fixed ?u2 = prop_fixed t" by simp
  then have lv: "level ?u2 = level t"
    and aq: "asize (propagate_literals ?u2) = asize (propagate_literals t)"
    and ad: "asize (decided_literals ?u2) = asize (decided_literals t)"
    by (simp_all add: prop_fixed_def)
  show "level (sat_undo_decide_literal t) = level s"
    using lv f(1) s2(1) by (simp add: sat_undo_decide_literal_def sat_undo_unit_resolution_def Let_def)
  show "\<forall>v. v \<noteq> Contradiction \<longrightarrow> d_level (sat_undo_decide_literal t) v = d_level s v"
  proof (intro allI impI)
    fix v assume v: "v \<noteq> Contradiction"
    have "d_level (sat_undo_decide_literal t) v = d_level ?u1 v"
      by (simp add: sat_undo_decide_literal_def sat_undo_unit_resolution_def Let_def)
    also have "\<dots> = (if v \<in> lit_var t ` set new then 0 else d_level t v)"
      using ut by simp
    also have "\<dots> = d_level s v"
    proof (cases "v \<in> lit_var t ` set new")
      case True
      then obtain l where "l \<in> set new" "lit_var s2 l = v" using f(2) by auto
      with n(3) v have "d_level s2 v = 0" by auto
      with True show ?thesis by (simp add: s2(4))
    next
      case False
      with n(4) f(2) show ?thesis by (simp add: s2(4))
    qed
    finally show "d_level (sat_undo_decide_literal t) v = d_level s v" .
  qed
  show "\<forall>c. c \<noteq> c0 \<longrightarrow> is_subsumed (sat_undo_decide_literal t) c = is_subsumed s c"
  proof (intro allI impI)
    fix c assume c: "c \<noteq> c0"
    have "is_subsumed (sat_undo_decide_literal t) c = is_subsumed ?u2 c"
      by (simp add: sat_undo_decide_literal_def sat_undo_unit_resolution_def Let_def)
    also have "\<dots> = (if c \<in> set added then False else is_subsumed t c)"
      using us by (simp add: lg)
    also have "\<dots> = is_subsumed s c"
      using a(2,3) c by (auto simp: s2(5))
    finally show "is_subsumed (sat_undo_decide_literal t) c = is_subsumed s c" .
  qed
  have "item (decided_literals (sat_undo_decide_literal t)) = ?old"
    using ut by (simp add: sat_undo_decide_literal_def sat_undo_unit_resolution_def Let_def)
  moreover have "asize (decided_literals (sat_undo_decide_literal t)) = asize (decided_literals s)"
    using f(3) s2(3)
    by (simp add: sat_undo_decide_literal_def sat_undo_unit_resolution_def Let_def)
  ultimately show "decided_literals (sat_undo_decide_literal t) = decided_literals s"
    by (intro array.equality) simp_all
  show "subsumed_clauses (sat_undo_decide_literal t) = subsumed_clauses s"
    using us by (simp add: sat_undo_decide_literal_def sat_undo_unit_resolution_def Let_def lg)
  show "item (propagate_literals (sat_undo_decide_literal t)) = []"
    by (simp add: sat_undo_decide_literal_def sat_undo_unit_resolution_def Let_def)
  show "asize (propagate_literals (sat_undo_decide_literal t)) = asize (propagate_literals s)"
    using f(4) s2(7) no_trail_fields(7)[OF no_trail_undo_trail[of t]]
    by (simp add: sat_undo_decide_literal_def sat_undo_unit_resolution_def Let_def)
qed


lemma conflicts_malloc_next: "conflicts s t \<Longrightarrow> malloc_next t = malloc_next s"
proof -
  assume "conflicts s t"
  then obtain s1 imp where "extends s s1" "sat_contradiction imp s1 = Inr (False, t)"
    unfolding conflicts_def by blast
  then have "prop_fixed t = prop_fixed s"
    using extends_prop_fixed prop_fixed_contradiction by metis
  then show ?thesis by (simp add: prop_fixed_def)
qed

lemma conflicts_build:
  assumes "conflicts s2 t" "lit_var s2 (Contradiction, pos) = Contradiction"
    "sat_build_asserting_clause t = Inr (c, s')"
  shows "grown (Malloc (malloc_next s2)) s2 s'"
proof -
  have "c = Malloc (malloc_next s2)"
    using sat_build_asserting_clause_frame(1)[OF assms(3)] conflicts_malloc_next[OF assms(1)]
    by simp
  with assms(3) have b: "sat_build_asserting_clause t = Inr (Malloc (malloc_next s2), s')" by simp
  from grown_build[OF conflicts_grown[OF assms(1,2)] b] show ?thesis .
qed

lemma level_succ: "level s + 1 < 2 ^ 64 \<Longrightarrow> nat ((int (level s) + 1) mod 2 ^ 64) = Suc (level s)"
proof -
  assume "level s + 1 < 2 ^ 64"
  then have "int (level s) + 1 < 2 ^ 64"
    by (metis of_nat_1 of_nat_add of_nat_less_numeral_power_cancel_iff)
  then have "(int (level s) + 1) mod 2 ^ 64 = int (level s) + 1" by simp
  then show ?thesis by simp
qed

lemma decide_grown:
  assumes l: "is_lit s lit" and w: "watches_ok s" and q: "item (propagate_literals s) = []"
    and cl: "lit_var s (Contradiction, pos) = Contradiction"
    and lv: "level s + 1 < 2 ^ 64" and d: "sat_decide_literal lit s = Inr (r, s')"
  shows "grown (Malloc (malloc_next s))
           (s\<lparr>level := Suc (level s), subsumed_clauses := None # subsumed_clauses s\<rparr>) s'"
proof -
  let ?s2 = "s\<lparr>level := Suc (level s), subsumed_clauses := None # subsumed_clauses s\<rparr>"
  note L = level_succ[OF lv]
  note d' = d[unfolded sat_decide_literal_def Let_def L]
  have c0: "Malloc (malloc_next s) = Malloc (malloc_next ?s2)" by simp
  have cl2: "lit_var ?s2 (Contradiction, pos) = Contradiction" using cl by simp
  have l2: "is_lit ?s2 lit" using l is_lit_fields[of ?s2 s] by simp
  have lv2: "0 < level ?s2" by simp
  from d' obtain p s3 where a: "set_Lit_Decision lit None ?s2 = Inr (p, s3)"
    by (auto split: sum.splits)
  from set_Lit_Decision_extends[OF a l2]
  show ?thesis
  proof
    assume "\<not> p \<and> sat_contradiction None ?s2 = Inr (False, s3)"
    then have np: "\<not> p" and c: "conflicts ?s2 s3"
      unfolding conflicts_def using extends_refl[of ?s2] by blast+
    from d' a np obtain c' where "sat_build_asserting_clause s3 = Inr (c', s')"
      by (auto split: sum.splits prod.splits)
    from conflicts_build[OF c cl2 this] show ?thesis by simp
  next
    assume "p \<and> extends ?s2 s3"
    then have p: "p" and e3: "extends ?s2 s3" by simp_all
    from d' a p obtain q' p' s4 where
      pq: "push (propagate_literals s3) lit = Inr q'"
      and u: "sat_unit_resolution (s3\<lparr>propagate_literals := q'\<rparr>) = Inr (p', s4)"
      by (auto split: sum.splits prod.splits)
    let ?s3 = "s3\<lparr>propagate_literals := q'\<rparr>"
    note nt = no_trail_fields[OF no_trail_set_Lit_Decision[OF a]]
    from pq have q': "item q' = item (propagate_literals s3) @ [lit]"
      "asize q' = asize (propagate_literals s3)"
      by (auto simp: push_def split: if_splits)
    have e3': "extends ?s2 ?s3" by (rule extends_queue[OF e3 q'(2)])
    have pf: "prop_fixed ?s3 = prop_fixed ?s2" by (rule extends_prop_fixed[OF e3'])
    then have f3: "vars_size ?s3 = vars_size s" "lit_var ?s3 = lit_var s" "lits ?s3 = lits s"
      "level ?s3 = Suc (level s)"
      by (simp_all add: prop_fixed_def)
    have "watches_ok ?s3 = watches_ok s"
      by (rule watches_ok_fields[OF f3(1,2,3)]) (simp_all add: nt)
    moreover have "list_all (is_lit ?s3) (item (propagate_literals ?s3))"
      unfolding is_lit_fields[OF f3(1,2)] using l q q'(1) by (simp add: nt(7))
    ultimately have w3: "wfq ?s3" using w by (simp add: wfq_def)
    have lv3: "0 < level ?s3" using f3(4) by simp
    from unit_loop_extends[OF u[unfolded sat_unit_resolution_def] w3 lv3]
    have r: "p' \<longrightarrow> extends ?s3 s4" "\<not> p' \<longrightarrow> conflicts ?s3 s4" by simp_all
    show ?thesis
    proof (cases p')
      case True
      with d' a p pq u have "s' = s4"
        by auto
      with r True extends_trans[OF e3' _ lv2] show ?thesis by (auto intro: extends_grown)
    next
      case False
      with r have "conflicts ?s2 s4" using conflicts_trans[OF e3' _ lv2] by blast
      moreover from d' a p pq u False obtain c' where "sat_build_asserting_clause s4 = Inr (c', s')"
        by (auto split: sum.splits prod.splits)
      ultimately show ?thesis using conflicts_build[OF _ cl2] by simp
    qed
  qed
qed

text \<open>The round trip: what \<^verbatim>\<open>sat_undo_decide_literal\<close> restores after a
  \<^verbatim>\<open>sat_decide_literal\<close> that returned.\<close>

lemma decide_undo:
  assumes "is_lit s lit" "watches_ok s" "trail_ok s" "item (propagate_literals s) = []"
    "lit_var s (Contradiction, pos) = Contradiction" "level s + 1 < 2 ^ 64"
    "sat_decide_literal lit s = Inr (r, s')"
  shows "level (sat_undo_decide_literal s') = level s"
    "\<forall>v. v \<noteq> Contradiction \<longrightarrow> d_level (sat_undo_decide_literal s') v = d_level s v"
    "\<forall>c. c \<noteq> Malloc (malloc_next s) \<longrightarrow>
         is_subsumed (sat_undo_decide_literal s') c = is_subsumed s c"
    "decided_literals (sat_undo_decide_literal s') = decided_literals s"
    "subsumed_clauses (sat_undo_decide_literal s') = subsumed_clauses s"
    "propagate_literals (sat_undo_decide_literal s') = propagate_literals s"
proof -
  let ?s2 = "s\<lparr>level := Suc (level s), subsumed_clauses := None # subsumed_clauses s\<rparr>"
  note g = decide_grown[OF assms(1,2,4,5,6,7)]
  have f: "level ?s2 = Suc (level s)" "subsumed_clauses ?s2 = None # subsumed_clauses s"
      "decided_literals ?s2 = decided_literals s" "d_level ?s2 = d_level s"
      "is_subsumed ?s2 = is_subsumed s" "lit_var ?s2 = lit_var s"
      "asize (propagate_literals ?s2) = asize (propagate_literals s)"
    by simp_all
  note u = grown_undo[OF g f assms(3)]
  show "level (sat_undo_decide_literal s') = level s" by (rule u(1))
  show "\<forall>v. v \<noteq> Contradiction \<longrightarrow> d_level (sat_undo_decide_literal s') v = d_level s v"
    by (rule u(2))
  show "\<forall>c. c \<noteq> Malloc (malloc_next s) \<longrightarrow>
         is_subsumed (sat_undo_decide_literal s') c = is_subsumed s c"
    by (rule u(3))
  show "decided_literals (sat_undo_decide_literal s') = decided_literals s" by (rule u(4))
  show "subsumed_clauses (sat_undo_decide_literal s') = subsumed_clauses s" by (rule u(5))
  show "propagate_literals (sat_undo_decide_literal s') = propagate_literals s"
    using u(6,7) assms(4) by (intro array.equality) simp_all
qed

section \<open>Concrete runs\<close>

text \<open>A fresh memory for the runs below; any other content would do.\<close>

definition mem0 :: sat_state where
  "mem0 = \<lparr>level = 0, marks = [], vars_size = 0, vars_count = 0, clauses_size = 0, clauses_count = 0,
     decided_literals = \<lparr>item = [], asize = 0\<rparr>, propagate_literals = \<lparr>item = [], asize = 0\<rparr>,
     learned_clauses = [], subsumed_clauses = [],
     var_id = (\<lambda>_. 0), var_mark = (\<lambda>_. False), d_value = (\<lambda>_. False), d_level = (\<lambda>_. 0),
     d_order = (\<lambda>_. 0), d_implied_by = (\<lambda>_. None), d_dominator = (\<lambda>_. None),
     lit_id = (\<lambda>_. 0), lit_var = (\<lambda>_. Contradiction), appears_in = (\<lambda>_. \<lparr>item = [], asize = 0\<rparr>),
     watch_list = (\<lambda>_. []), learned_list = (\<lambda>_. []),
     c_id = (\<lambda>_. 0), assertion_level = (\<lambda>_. 0), lits = (\<lambda>_. \<lparr>item = [], asize = 0\<rparr>),
     watch_a = (\<lambda>_. None), watch_b = (\<lambda>_. None), is_subsumed = (\<lambda>_. False), c_mark = (\<lambda>_. False),
     malloc_next = 0\<rparr>"

text \<open>\<^verbatim>\<open>p cnf 1 1 / 1 0\<close> after \<^verbatim>\<open>sat_state_new\<close>.\<close>

definition S1 :: sat_state where
  "S1 = projr (sat_state_new mem0 1 [[1]])"

text \<open>\<^verbatim>\<open>p cnf 2 1 / 1 0\<close> after \<^verbatim>\<open>sat_state_new\<close>: variable 2 is in no clause.\<close>

definition S_two_vars :: sat_state where
  "S_two_vars = projr (sat_state_new mem0 2 [[1]])"

text \<open>\<^verbatim>\<open>p cnf 3 3 / 1 2 0 / -1 2 0 / -2 3 0\<close> after \<^verbatim>\<open>sat_state_new\<close>.\<close>

definition S4 :: sat_state where
  "S4 = projr (sat_state_new mem0 3 [[1, 2], [- 1, 2], [- 2, 3]])"

text \<open>\<^verbatim>\<open>p cnf 2 3 / 1 0 / 1 0 / -1 2 0\<close> after \<^verbatim>\<open>sat_state_new\<close>: the unit clause occurs twice.\<close>

definition Q0 :: sat_state where
  "Q0 = projr (sat_state_new mem0 2 [[1], [1], [- 1, 2]])"

lemma Inr_projr: "\<not> isl x \<Longrightarrow> x = Inr (projr x)"
  by (cases x) simp_all

lemma Inr_projr_pair: "\<not> isl x \<Longrightarrow> x = Inr (fst (projr x), snd (projr x))"
  by (cases x) simp_all

text \<open>\<^verbatim>\<open>p cnf 2 2 / 1 2 0 / 1 -2 0\<close>: decide -1 (a conflict, with the clause of the one literal
  1), undo to level 1, assert the clause.\<close>

definition V0 :: sat_state where
  "V0 = projr (sat_state_new mem0 2 [[1, 2], [1, - 2]])"

definition V1 :: sat_state where
  "V1 = snd (projr (sat_decide_literal (VarAt 0, neg) V0))"

definition V2 :: sat_state where
  "V2 = sat_undo_decide_literal V1"

definition V3 :: sat_state where
  "V3 = snd (projr (sat_assert_clause (Malloc 0) V2))"

text \<open>\<^verbatim>\<open>p cnf 2 4 / 1 2 0 / 1 -2 0 / -1 2 0 / -1 -2 0\<close>: decide -1 (a conflict, with the clause
  of the one literal 1), undo to level 1.\<close>

definition X0 :: sat_state where
  "X0 = projr (sat_state_new mem0 2 [[1, 2], [1, - 2], [- 1, 2], [- 1, - 2]])"

definition X1 :: sat_state where
  "X1 = snd (projr (sat_decide_literal (VarAt 0, neg) X0))"

definition X2 :: sat_state where
  "X2 = sat_undo_decide_literal X1"

text \<open>\<^verbatim>\<open>p cnf 3 4 / -1 -2 3 0 / -1 -2 -3 0 / -1 2 3 0 / -1 2 -3 0\<close>: decide 1, decide 2 (a
  conflict, with the clause -2 -1 for level 2), undo to level 2.\<close>

definition W0 :: sat_state where
  "W0 = projr (sat_state_new mem0 3 [[- 1, - 2, 3], [- 1, - 2, - 3], [- 1, 2, 3], [- 1, 2, - 3]])"

definition W1 :: sat_state where
  "W1 = snd (projr (sat_decide_literal (VarAt 0, pos) W0))"

definition W2 :: sat_state where
  "W2 = snd (projr (sat_decide_literal (VarAt 1, pos) W1))"

definition W3 :: sat_state where
  "W3 = sat_undo_decide_literal W2"

lemma reachable_V2: "reachable V2"
proof -
  have a: "\<not> isl (sat_state_new mem0 2 [[1, 2], [1, - 2]])" by code_simp
  have b: "\<not> isl (sat_decide_literal (VarAt 0, neg) V0)" by code_simp
  have "reachable V0" unfolding V0_def by (rule reach_new[OF Inr_projr[OF a]])
  then have "reachable V1" unfolding V1_def by (rule reach_decide[OF _ Inr_projr_pair[OF b]])
  then show ?thesis unfolding V2_def by (rule reach_undo_decide)
qed

lemma reachable_X2: "reachable X2"
proof -
  have a: "\<not> isl (sat_state_new mem0 2 [[1, 2], [1, - 2], [- 1, 2], [- 1, - 2]])" by code_simp
  have b: "\<not> isl (sat_decide_literal (VarAt 0, neg) X0)" by code_simp
  have "reachable X0" unfolding X0_def by (rule reach_new[OF Inr_projr[OF a]])
  then have "reachable X1" unfolding X1_def by (rule reach_decide[OF _ Inr_projr_pair[OF b]])
  then show ?thesis unfolding X2_def by (rule reach_undo_decide)
qed

lemma reachable_W3: "reachable W3"
proof -
  have a: "\<not> isl (sat_state_new mem0 3 [[- 1, - 2, 3], [- 1, - 2, - 3], [- 1, 2, 3], [- 1, 2, - 3]])"
    by code_simp
  have b: "\<not> isl (sat_decide_literal (VarAt 0, pos) W0)" by code_simp
  have c: "\<not> isl (sat_decide_literal (VarAt 1, pos) W1)" by code_simp
  have "reachable W0" unfolding W0_def by (rule reach_new[OF Inr_projr[OF a]])
  then have "reachable W1" unfolding W1_def by (rule reach_decide[OF _ Inr_projr_pair[OF b]])
  then have "reachable W2" unfolding W2_def by (rule reach_decide[OF _ Inr_projr_pair[OF c]])
  then show ?thesis unfolding W3_def by (rule reach_undo_decide)
qed

text \<open>On \<open>V0\<close>: the decision of 1, which propagates without conflict; and on \<open>V2\<close>, where
  the decision of -1 has been undone, the decision of 1 and its undo.\<close>

definition V0_pos :: sat_state where
  "V0_pos = snd (projr (sat_decide_literal (VarAt 0, pos) V0))"

definition V2_pos :: sat_state where
  "V2_pos = snd (projr (sat_decide_literal (VarAt 0, pos) V2))"

section \<open>The claims\<close>

subsection \<open>C10\<close>

text \<open>C10. A variable that no original clause mentions (the \<^verbatim>\<open>appears_in\<close> arrays of both its
  literals have size 0) is irrelevant in every state: both loops of \<^verbatim>\<open>sat_irrelevant_var\<close>
  run over no clause and the function returns true.\<close>

theorem sat_irrelevant_var_unmentioned:
  "asize (appears_in s (var, pos)) = 0 \<Longrightarrow> asize (appears_in s (var, neg)) = 0 \<Longrightarrow>
   sat_irrelevant_var s var = Inr True"
  by (simp add: sat_irrelevant_var_def)

theorem sat_irrelevant_var_unmentioned_witness:
  "asize (appears_in S_two_vars (VarAt 1, pos)) = 0 \<and>
   asize (appears_in S_two_vars (VarAt 1, neg)) = 0 \<and>
   sat_irrelevant_var S_two_vars (VarAt 1) = Inr True"
proof -
  have a: "asize (appears_in S_two_vars (VarAt 1, pos)) = 0" by code_simp
  have b: "asize (appears_in S_two_vars (VarAt 1, neg)) = 0" by code_simp
  show ?thesis using a b sat_irrelevant_var_unmentioned[OF a b] by simp
qed

subsection \<open>C5\<close>

text \<open>C5, as the source has it. Called on a literal that is already implied,
  \<^verbatim>\<open>set_Lit_Decision\<close> with an implier that is not \<^verbatim>\<open>NULL\<close> subsumes the implier, returns
  true and leaves the trail as it is. Called on a literal that is instantiated and not
  implied, with a free slot on the trail, it stores the implier in the contradiction's
  \<^verbatim>\<open>implied_by\<close>, appends the contradiction's positive literal to the trail and returns
  false.\<close>

theorem set_Lit_Decision_instantiated:
  "(sat_implied_literal s lit \<longrightarrow>
      set_Lit_Decision lit (Some clause) s = Inr (True, sat_subsume_clause clause s) \<and>
      is_subsumed (sat_subsume_clause clause s) clause \<and>
      decided_literals (sat_subsume_clause clause s) = decided_literals s) \<and>
   (sat_instantiated_var s (lit_var s lit) \<and> \<not> sat_implied_literal s lit \<and>
    length (item (decided_literals s)) < asize (decided_literals s) \<longrightarrow>
      (\<exists>s'. set_Lit_Decision lit implier s = Inr (False, s') \<and>
            d_implied_by s' Contradiction = implier \<and>
            item (decided_literals s') = item (decided_literals s) @ [(Contradiction, pos)]))"
  by (auto simp: set_Lit_Decision_def sat_implied_literal_def sat_contradiction_def
        set_Var_Decision_def push_def sat_subsume_clause_def Let_def)

theorem set_Lit_Decision_instantiated_witness:
  "sat_implied_literal S1 (VarAt 0, pos) \<and>
   set_Lit_Decision (VarAt 0, pos) (Some (ClauseAt 0)) S1
     = Inr (True, sat_subsume_clause (ClauseAt 0) S1) \<and>
   sat_instantiated_var S1 (lit_var S1 (VarAt 0, neg)) \<and>
   \<not> sat_implied_literal S1 (VarAt 0, neg) \<and>
   length (item (decided_literals S1)) < asize (decided_literals S1) \<and>
   (\<exists>s'. set_Lit_Decision (VarAt 0, neg) (Some (ClauseAt 0)) S1 = Inr (False, s') \<and>
         d_implied_by s' Contradiction = Some (ClauseAt 0) \<and>
         item (decided_literals s') = item (decided_literals S1) @ [(Contradiction, pos)])"
proof -
  have a: "sat_implied_literal S1 (VarAt 0, pos)" by code_simp
  have b: "sat_instantiated_var S1 (lit_var S1 (VarAt 0, neg))" by code_simp
  have c: "\<not> sat_implied_literal S1 (VarAt 0, neg)" by code_simp
  have d: "length (item (decided_literals S1)) < asize (decided_literals S1)" by code_simp
  show ?thesis
    using a b c d
      set_Lit_Decision_instantiated[of S1 "(VarAt 0, pos)" "ClauseAt 0"]
      set_Lit_Decision_instantiated[of S1 "(VarAt 0, neg)" "ClauseAt 0" "Some (ClauseAt 0)"]
    by blast
qed

text \<open>C5 as stated fails where the implier is \<^verbatim>\<open>NULL\<close>: after \<^verbatim>\<open>p cnf 1 1 / 1 0\<close> literal 1 is
  implied, and the call that \<^verbatim>\<open>sat_decide_literal\<close> would make on it dereferences the null
  implier in \<^verbatim>\<open>sat_subsume_clause\<close> instead of returning true.\<close>

theorem set_Lit_Decision_null_implier:
  "sat_implied_literal S1 (VarAt 0, pos) \<and>
   set_Lit_Decision (VarAt 0, pos) None S1 = Inl NullDeref"
proof -
  have "sat_implied_literal S1 (VarAt 0, pos) \<and>
        (case set_Lit_Decision (VarAt 0, pos) None S1 of Inl e \<Rightarrow> e = NullDeref | Inr _ \<Rightarrow> False)"
    by code_simp
  then show ?thesis by (auto split: sum.splits)
qed

subsection \<open>C8\<close>

text \<open>C8. On a CNF whose first clause is empty, \<^verbatim>\<open>read_sat_cnf\<close> allocates a literal array of
  length 0 for it and then reads \<^verbatim>\<open>*(clause->lits.item)\<close> for \<^verbatim>\<open>watch_a\<close>: the construction
  does not return a state that signals UNSAT, it reads out of bounds.\<close>

theorem sat_state_new_empty_clause:
  "sat_state_new mem n ([] # cls) = Inl OutOfBounds"
  by (simp add: sat_state_new_def read_sat_cnf_def read_clause_def Let_def read_at_def
        init_Clause_def)

subsection \<open>C2\<close>

text \<open>C2 as stated fails: \<^verbatim>\<open>sat_state_new\<close> does not call \<^verbatim>\<open>sat_unit_resolution\<close>. After
  \<^verbatim>\<open>p cnf 1 1 / 1 0\<close> the propagate queue still holds literal 1 and clause 1 is not
  subsumed.\<close>

theorem sat_state_new_leaves_queue:
  "sat_state_new mem0 1 [[1]] = Inr S1 \<and>
   item (propagate_literals S1) \<noteq> [] \<and> \<not> is_subsumed S1 (ClauseAt 0)"
proof -
  from sat_state_new_unit_cnf[of mem0] obtain s where
    s: "sat_state_new mem0 1 [[1]] = Inr s" "item (propagate_literals s) = [(VarAt 0, pos)]"
       "\<not> is_subsumed s (ClauseAt 0)"
    by blast
  from s(1) have "S1 = s" by (simp add: S1_def)
  with s show ?thesis by simp
qed

text \<open>C2, as the source has it. \<^verbatim>\<open>sat_state_new\<close> does not propagate; the first
  \<^verbatim>\<open>sat_unit_resolution\<close> of the client does. For every CNF on which \<^verbatim>\<open>sat_state_new\<close>
  returns, the state has the clauses of the CNF (a clause's literals are the tokens before
  its first 0), and the propagate queue is empty exactly when no clause has exactly one
  literal. In any state a \<^verbatim>\<open>sat_unit_resolution\<close> that succeeds leaves the queue empty. On
  \<^verbatim>\<open>p cnf 1 1 / 1 0\<close>, after \<^verbatim>\<open>sat_state_new\<close> variable 1 is instantiated at level 1 with value
  true, the queue holds literal 1, clause 1 is not subsumed and no clause is learned; the
  first \<^verbatim>\<open>sat_unit_resolution\<close> then succeeds and leaves the queue empty, clause 1 subsumed,
  variable 1 at level 1 with value true and no clause learned.\<close>

theorem sat_state_new_no_propagation:
  "(\<forall>n cls s. sat_state_new mem n cls = Inr s \<longrightarrow>
      clauses_size s = length cls \<and>
      (\<forall>i < length cls. sat_clause_size s (ClauseAt i) =
                           length (takeWhile (\<lambda>v. v \<noteq> 0) (cls ! i))) \<and>
      ((item (propagate_literals s) = []) =
       (\<forall>i < clauses_size s. sat_clause_size s (ClauseAt i) \<noteq> 1))) \<and>
   (\<forall>s s'. sat_unit_resolution s = Inr (True, s') \<longrightarrow> item (propagate_literals s') = []) \<and>
   (\<exists>s. sat_state_new mem 1 [[1]] = Inr s \<and> level s = 1 \<and>
        d_level s (VarAt 0) = 1 \<and> d_value s (VarAt 0) \<and>
        item (propagate_literals s) = [(VarAt 0, pos)] \<and>
        \<not> is_subsumed s (ClauseAt 0) \<and> sat_learned_clause_count s = 0 \<and>
        (\<exists>s'. sat_unit_resolution s = Inr (True, s') \<and>
              item (propagate_literals s') = [] \<and> is_subsumed s' (ClauseAt 0) \<and>
              d_level s' (VarAt 0) = 1 \<and> d_value s' (VarAt 0) \<and>
              sat_learned_clause_count s' = 0))"
proof -
  have a: "\<forall>n cls s. sat_state_new mem n cls = Inr s \<longrightarrow>
      clauses_size s = length cls \<and>
      (\<forall>i < length cls. sat_clause_size s (ClauseAt i) =
                           length (takeWhile (\<lambda>v. v \<noteq> 0) (cls ! i))) \<and>
      ((item (propagate_literals s) = []) =
       (\<forall>i < clauses_size s. sat_clause_size s (ClauseAt i) \<noteq> 1))"
    using sat_state_new_queue by blast
  have b: "\<forall>s s'. sat_unit_resolution s = Inr (True, s') \<longrightarrow> item (propagate_literals s') = []"
    by (auto simp: sat_unit_resolution_def dest: unit_loop_empties)
  from a b sat_state_new_unit_cnf[of mem] show ?thesis by blast
qed

theorem sat_state_new_no_propagation_witness:
  "sat_state_new mem0 1 [[1]] = Inr S1 \<and> sat_clause_size S1 (ClauseAt 0) = 1 \<and>
   item (propagate_literals S1) \<noteq> [] \<and>
   sat_state_new mem0 3 [[1, 2], [- 1, 2], [- 2, 3]] = Inr S4 \<and>
   item (propagate_literals S4) = [] \<and>
   (\<exists>s'. sat_unit_resolution S1 = Inr (True, s') \<and> item (propagate_literals s') = [] \<and>
         is_subsumed s' (ClauseAt 0))"
proof -
  have a: "\<not> isl (sat_state_new mem0 1 [[1]])" by code_simp
  have b: "\<not> isl (sat_state_new mem0 3 [[1, 2], [- 1, 2], [- 2, 3]])" by code_simp
  have a': "sat_state_new mem0 1 [[1]] = Inr S1" unfolding S1_def by (rule Inr_projr[OF a])
  have b': "sat_state_new mem0 3 [[1, 2], [- 1, 2], [- 2, 3]] = Inr S4"
    unfolding S4_def by (rule Inr_projr[OF b])
  note t = sat_state_new_no_propagation[of mem0]
  from t a' have a1: "clauses_size S1 = length [[1::int]]"
    "\<forall>i < length [[1::int]]. sat_clause_size S1 (ClauseAt i) =
        length (takeWhile (\<lambda>v. v \<noteq> 0) ([[1::int]] ! i))"
    "(item (propagate_literals S1) = []) =
       (\<forall>i < clauses_size S1. sat_clause_size S1 (ClauseAt i) \<noteq> 1)"
    by blast+
  from a1(2) have a2: "sat_clause_size S1 (ClauseAt 0) = 1" by simp
  with a1(1,3) have a3: "item (propagate_literals S1) \<noteq> []" by auto
  from t b' have b1: "clauses_size S4 = length [[1, 2], [- 1, 2], [- 2, 3::int]]"
    "\<forall>i < length [[1, 2], [- 1, 2], [- 2, 3::int]]. sat_clause_size S4 (ClauseAt i) =
        length (takeWhile (\<lambda>v. v \<noteq> 0) ([[1, 2], [- 1, 2], [- 2, 3::int]] ! i))"
    "(item (propagate_literals S4) = []) =
       (\<forall>i < clauses_size S4. sat_clause_size S4 (ClauseAt i) \<noteq> 1)"
    by blast+
  have "\<forall>i < 3. sat_clause_size S4 (ClauseAt i) = 2"
  proof (intro allI impI)
    fix i :: nat assume "i < 3"
    then have "i = 0 \<or> i = 1 \<or> i = 2" by auto
    with b1(2) show "sat_clause_size S4 (ClauseAt i) = 2" by auto
  qed
  with b1(1,3) have b3: "item (propagate_literals S4) = []" by simp
  from t obtain s s' where
    s: "sat_state_new mem0 1 [[1]] = Inr s" "sat_unit_resolution s = Inr (True, s')"
       "item (propagate_literals s') = []" "is_subsumed s' (ClauseAt 0)"
    by blast
  from s(1) a' have "S1 = s" by simp
  with s a' a2 a3 b' b3 show ?thesis by blast
qed

subsection \<open>C3\<close>

text \<open>C3. The propagate queue is an array of \<open>vars.size\<close> slots, and the last loop of
  \<^verbatim>\<open>read_sat_cnf\<close> appends the literal of a unit clause each time the clause occurs. After
  \<^verbatim>\<open>p cnf 2 3 / 1 0 / 1 0 / -1 2 0\<close> the queue is full. The propagation of literal 1 then
  visits clause 3 on the watch list of -1: the clause is not subsumed, its scan finds no
  replacement (-1 is falsified, 2 is a watch), and the other watch 2 is uninstantiated. The
  code assigns 2 and writes it to \<^verbatim>\<open>propagate_literals.item[2]\<close>, past the end of the array:
  the literal is not enqueued, \<^verbatim>\<open>propagate_lit_decision\<close> and the \<^verbatim>\<open>sat_unit_resolution\<close> that
  called it end in the out-of-bounds write.\<close>

theorem propagate_lit_decision_queue_overrun:
  "sat_state_new mem0 2 [[1], [1], [- 1, 2]] = Inr Q0 \<and>
   item (propagate_literals Q0) = [(VarAt 0, pos), (VarAt 0, pos)] \<and>
   asize (propagate_literals Q0) = 2 \<and>
   watch_list Q0 (VarAt 0, neg) = [ClauseAt 2] \<and>
   \<not> sat_subsumed_clause Q0 (ClauseAt 2) \<and>
   item (lits Q0 (ClauseAt 2)) = [(VarAt 0, neg), (VarAt 1, pos)] \<and>
   watch_a Q0 (ClauseAt 2) = Some (VarAt 0, neg) \<and>
   watch_b Q0 (ClauseAt 2) = Some (VarAt 1, pos) \<and>
   sat_instantiated_var Q0 (VarAt 0) \<and> \<not> sat_implied_literal Q0 (VarAt 0, neg) \<and>
   \<not> sat_instantiated_var Q0 (VarAt 1) \<and>
   propagate_lit_decision (VarAt 0, pos) Q0 = Inl OutOfBounds \<and>
   sat_unit_resolution Q0 = Inl OutOfBounds"
proof -
  have a: "\<not> isl (sat_state_new mem0 2 [[1], [1], [- 1, 2]])" by code_simp
  have b: "item (propagate_literals Q0) = [(VarAt 0, pos), (VarAt 0, pos)]"
    "asize (propagate_literals Q0) = 2"
    "watch_list Q0 (VarAt 0, neg) = [ClauseAt 2]"
    "\<not> sat_subsumed_clause Q0 (ClauseAt 2)"
    "item (lits Q0 (ClauseAt 2)) = [(VarAt 0, neg), (VarAt 1, pos)]"
    "watch_a Q0 (ClauseAt 2) = Some (VarAt 0, neg)"
    "watch_b Q0 (ClauseAt 2) = Some (VarAt 1, pos)"
    "sat_instantiated_var Q0 (VarAt 0)" "\<not> sat_implied_literal Q0 (VarAt 0, neg)"
    "\<not> sat_instantiated_var Q0 (VarAt 1)"
    by code_simp+
  have c: "case propagate_lit_decision (VarAt 0, pos) Q0 of Inl e \<Rightarrow> e = OutOfBounds | Inr _ \<Rightarrow> False"
    by code_simp
  have d: "case sat_unit_resolution Q0 of Inl e \<Rightarrow> e = OutOfBounds | Inr _ \<Rightarrow> False"
    by code_simp
  from c have c': "propagate_lit_decision (VarAt 0, pos) Q0 = Inl OutOfBounds"
    by (auto split: sum.splits)
  from d have d': "sat_unit_resolution Q0 = Inl OutOfBounds"
    by (auto split: sum.splits)
  have a': "sat_state_new mem0 2 [[1], [1], [- 1, 2]] = Inr Q0"
    unfolding Q0_def by (rule Inr_projr[OF a])
  from a' b c' d' show ?thesis by blast
qed

subsection \<open>C6\<close>



subsection \<open>C7\<close>

text \<open>C7 as stated fails on learned clauses. On \<^verbatim>\<open>p cnf 2 2 / 1 2 0 / 1 -2 0\<close> the decision
  of -1 returns a clause with the one literal 1, for level 1. After the undo,
  \<^verbatim>\<open>sat_assert_clause\<close> on it succeeds and leaves \<^verbatim>\<open>watch_b\<close> pointing to literal 1, as
  \<^verbatim>\<open>watch_a\<close> does.\<close>

theorem sat_assert_clause_unit_watch_b:
  "sat_decide_literal (VarAt 0, neg) V0 = Inr (Some (Malloc 0), V1) \<and>
   sat_clause_size V2 (Malloc 0) = 1 \<and> sat_at_assertion_level V2 (Malloc 0) \<and>
   sat_assert_clause (Malloc 0) V2 = Inr (None, V3) \<and>
   sat_clause_size V3 (Malloc 0) = 1 \<and>
   watch_a V3 (Malloc 0) = Some (VarAt 0, pos) \<and>
   watch_b V3 (Malloc 0) = Some (VarAt 0, pos)"
proof -
  have a: "\<not> isl (sat_decide_literal (VarAt 0, neg) V0)"
    "fst (projr (sat_decide_literal (VarAt 0, neg) V0)) = Some (Malloc 0)"
    by code_simp+
  have b: "sat_clause_size V2 (Malloc 0) = 1" "sat_at_assertion_level V2 (Malloc 0)"
    by code_simp+
  have c: "\<not> isl (sat_assert_clause (Malloc 0) V2)"
    "fst (projr (sat_assert_clause (Malloc 0) V2)) = None"
    by code_simp+
  have d: "sat_clause_size V3 (Malloc 0) = 1"
    "watch_a V3 (Malloc 0) = Some (VarAt 0, pos)"
    "watch_b V3 (Malloc 0) = Some (VarAt 0, pos)"
    by code_simp+
  have a': "sat_decide_literal (VarAt 0, neg) V0 = Inr (Some (Malloc 0), V1)"
    using Inr_projr_pair[OF a(1)] a(2) by (simp add: V1_def)
  have c': "sat_assert_clause (Malloc 0) V2 = Inr (None, V3)"
    using Inr_projr_pair[OF c(1)] c(2) by (simp add: V3_def)
  from a' b c' d show ?thesis by blast
qed

text \<open>C7, as the source has it. In every reachable state, \<^verbatim>\<open>watch_b\<close> of an original clause
  is \<^verbatim>\<open>NULL\<close> exactly when the clause has one literal. \<^verbatim>\<open>sat_assert_clause\<close> sets \<^verbatim>\<open>watch_b\<close>
  of the clause it is given to \<^verbatim>\<open>lits.item[lits.size-1]\<close>, which for a clause of one literal
  is the literal \<^verbatim>\<open>watch_a\<close> gets: when \<^verbatim>\<open>sat_assert_clause\<close> returns, \<^verbatim>\<open>watch_b\<close> of an
  allocated clause that it was given is not \<^verbatim>\<open>NULL\<close>, whatever the size of the clause.\<close>

theorem watch_b_null_iff:
  "(reachable s \<longrightarrow>
      (\<forall>i < clauses_size s.
         (watch_b s (ClauseAt i) = None) = (sat_clause_size s (ClauseAt i) = 1))) \<and>
   (k < malloc_next s \<and> sat_assert_clause (Malloc k) s = Inr (r, s') \<longrightarrow>
      watch_b s' (Malloc k) \<noteq> None)"
proof (intro conjI impI allI)
  fix i assume r: "reachable s" and i: "i < clauses_size s"
  from reachable_api_inv[OF r] i have "orig_ok s (ClauseAt i)"
    by (simp add: api_inv_def originals_ok_def)
  then show "(watch_b s (ClauseAt i) = None) = (sat_clause_size s (ClauseAt i) = 1)"
    by (auto simp: orig_ok_def sat_clause_size_def)
next
  assume h: "k < malloc_next s \<and> sat_assert_clause (Malloc k) s = Inr (r, s')"
  then obtain b s1 where a: "assert_attach (Malloc k) s = Inr (b, s1)"
    by (auto simp: sat_assert_clause_def split: sum.splits)
  from prop_fixed_assert_attach[OF a] have m: "malloc_next s1 = malloc_next s"
    by (simp add: prop_fixed_def)
  have "r \<noteq> Some (Malloc k)"
  proof
    assume e: "r = Some (Malloc k)"
    with h a obtain s2 where "sat_build_asserting_clause s1 = Inr (Malloc k, s2)"
      by (auto simp: sat_assert_clause_def split: sum.splits prod.splits if_splits bool.splits)
    from sat_build_asserting_clause_frame(1)[OF this] m h show False by simp
  qed
  with h show "watch_b s' (Malloc k) \<noteq> None"
    by (auto dest: sat_assert_clause_watch_b)
qed

theorem watch_b_null_iff_witness:
  "reachable Q0 \<and> clauses_size Q0 = 3 \<and>
   watch_b Q0 (ClauseAt 0) = None \<and> sat_clause_size Q0 (ClauseAt 0) = 1 \<and>
   watch_b Q0 (ClauseAt 2) \<noteq> None \<and> sat_clause_size Q0 (ClauseAt 2) \<noteq> 1 \<and>
   0 < malloc_next V2 \<and> sat_assert_clause (Malloc 0) V2 = Inr (None, V3) \<and>
   watch_b V3 (Malloc 0) \<noteq> None"
proof -
  have a: "\<not> isl (sat_state_new mem0 2 [[1], [1], [- 1, 2]])" by code_simp
  have q: "reachable Q0" unfolding Q0_def by (rule reach_new[OF Inr_projr[OF a]])
  have b: "clauses_size Q0 = 3" "sat_clause_size Q0 (ClauseAt 0) = 1"
    "sat_clause_size Q0 (ClauseAt 2) \<noteq> 1"
    by code_simp+
  have c: "0 < malloc_next V2" "\<not> isl (sat_assert_clause (Malloc 0) V2)"
    "fst (projr (sat_assert_clause (Malloc 0) V2)) = None"
    by code_simp+
  have c': "sat_assert_clause (Malloc 0) V2 = Inr (None, V3)"
    using Inr_projr_pair[OF c(2)] c(3) by (simp add: V3_def)
  from watch_b_null_iff[where s = Q0] q b
  have "watch_b Q0 (ClauseAt 0) = None" "watch_b Q0 (ClauseAt 2) \<noteq> None"
    by auto
  moreover from watch_b_null_iff[where k = 0 and s = V2 and r = None and s' = V3] c(1) c'
  have "watch_b V3 (Malloc 0) \<noteq> None" by blast
  ultimately show ?thesis using q b c(1) c' by blast
qed

subsection \<open>C4\<close>




end
